theory Spec2Isabelle
  imports Main "HOL-Library.Word" "HOL-Library.Signed_Division"
begin

unbundle bit_operations_syntax

section \<open>The arc4 generator of dnscrypt-proxy (alt\_arc4random.c)\<close>

text \<open>
  The C file keeps five statics and talks to the operating system through
  \<^verbatim>\<open>getpid\<close>, \<^verbatim>\<open>access\<close>, \<^verbatim>\<open>open\<close>, \<^verbatim>\<open>close\<close> and \<^verbatim>\<open>safe_read\<close>.
  The statics are a record that every function takes and returns; the system calls
  are the fields of an environment record that stays fixed during one public call.
\<close>

subsection \<open>Data\<close>

type_synonym uint8_t = "8 word"
type_synonym uint32_t = "32 word"

text \<open>
  \<^verbatim>\<open>struct alt_arc4_stream { uint8_t i; uint8_t j; uint8_t s[256]; }\<close>.
  The table has one entry for each value of an \<^verbatim>\<open>uint8_t\<close>, and every index
  expression of the file is an \<^verbatim>\<open>uint8_t\<close>, a sum masked with \<^verbatim>\<open>0xff\<close> or a
  loop counter below 256, so the table is a total map from 8-bit indices to bytes.
  The fields carry the prefix of the static \<^verbatim>\<open>rs\<close> they live in.
\<close>

record alt_arc4_stream =
  rs_i :: uint8_t
  rs_j :: uint8_t
  rs_s :: "uint8_t \<Rightarrow> uint8_t"

text \<open>
  The statics of the file. \<^verbatim>\<open>rs_initialized\<close> is an \<^verbatim>\<open>int\<close> that is only ever
  assigned 1 and tested for truth. \<^verbatim>\<open>alt_arc4_count\<close> is a C \<^verbatim>\<open>int\<close>, kept here as
  an integer without bound: between public calls it stays within 0 and 1,600,000 (lemma
  \<open>reachable_count_in_range\<close> below), so no subtraction of the file overflows.
  \<^verbatim>\<open>pid_t\<close> and file descriptors are integers, -1 being "no descriptor".
  \<open>reads\<close> is not a static: it lists the calls made to \<^verbatim>\<open>safe_read\<close> so far
  (descriptor and requested size), as a mock of the entropy device would record them.
\<close>

record state =
  rs_initialized :: bool
  rs :: alt_arc4_stream
  alt_arc4_stir_pid :: int
  alt_arc4_count :: int
  random_data_source_fd :: int
  reads :: "(int \<times> nat) list"

text \<open>
  The operating system as one public call sees it. \<open>rnd_after_read e k n\<close> is the byte
  \<^verbatim>\<open>rnd[n]\<close> of the stack buffer of \<^verbatim>\<open>alt_arc4_stir\<close> after the \<open>k\<close>-th
  \<^verbatim>\<open>safe_read\<close> of the process returned (its return value is ignored by the code).
\<close>

record env =
  getpid :: int
  access_ok :: "string \<Rightarrow> bool"
  open_fd :: "string \<Rightarrow> int"
  close_result :: "int \<Rightarrow> int"
  rnd_after_read :: "nat \<Rightarrow> nat \<Rightarrow> uint8_t"

text \<open>
  \<^verbatim>\<open>abort()\<close> ends the process; a remainder by zero and a read outside the caller's
  buffer are undefined in C. Each is a result of the model.
\<close>

datatype error = ABORT | DIV_BY_ZERO | OUT_OF_BOUNDS

text \<open>The statics as the C runtime initialises them.\<close>

definition initial_state :: state where
  "initial_state =
     \<lparr>rs_initialized = False,
      rs = \<lparr>rs_i = 0, rs_j = 0, rs_s = (\<lambda>_. 0)\<rparr>,
      alt_arc4_stir_pid = 0,
      alt_arc4_count = 0,
      random_data_source_fd = - 1,
      reads = []\<rparr>"

subsection \<open>Entropy source handle\<close>

definition devices :: "string list" where
  "devices = [''/dev/arandom'', ''/dev/urandom'', ''/dev/random'']"

fun dev_open_from :: "env \<Rightarrow> string list \<Rightarrow> int" where
  "dev_open_from e [] = - 1"
| "dev_open_from e (device # rest) =
     (if access_ok e device then open_fd e device else dev_open_from e rest)"

definition alt_arc4_random_dev_open :: "env \<Rightarrow> int" where
  "alt_arc4_random_dev_open e = dev_open_from e devices"

function init_loop :: "nat \<Rightarrow> (uint8_t \<Rightarrow> uint8_t) \<Rightarrow> (uint8_t \<Rightarrow> uint8_t)" where
  "init_loop n t = (if n < 256 then init_loop (Suc n) (t(of_nat n := of_nat n)) else t)"
  by pat_completeness auto
termination
  by (relation "measure (\<lambda>(n, t). 256 - n)") auto

declare init_loop.simps [simp del]

definition alt_arc4_init :: "env \<Rightarrow> state \<Rightarrow> error + state" where
  "alt_arc4_init e st =
     (let st1 = st\<lparr>rs := \<lparr>rs_i = 0, rs_j = 0, rs_s = init_loop 0 (rs_s (rs st))\<rparr>\<rparr>
      in if random_data_source_fd st1 \<noteq> - 1 then Inr st1
         else let fd = alt_arc4_random_dev_open e
              in if fd = - 1 then Inl ABORT
                 else Inr (st1\<lparr>random_data_source_fd := fd\<rparr>))"

subsection \<open>Keystream state operations\<close>

text \<open>
  One round of the loop of \<^verbatim>\<open>alt_arc4_addrandom\<close>. \<^verbatim>\<open>n % datlen\<close> is C's
  truncating remainder on \<^verbatim>\<open>int\<close>; \<open>dat\<close> is the memory the caller's pointer
  gives access to.
\<close>

definition addrandom_step ::
  "uint8_t list \<Rightarrow> int \<Rightarrow> nat \<Rightarrow> alt_arc4_stream \<Rightarrow> error + alt_arc4_stream" where
  "addrandom_step dat datlen n r =
     (if datlen = 0 then Inl DIV_BY_ZERO
      else let k = int n smod datlen
           in if k < 0 \<or> int (length dat) \<le> k then Inl OUT_OF_BOUNDS
              else let i1 = rs_i r + 1;
                       si = rs_s r i1;
                       j1 = rs_j r + si + dat ! nat k;
                       s1 = (rs_s r)(i1 := rs_s r j1);
                       s2 = s1(j1 := si)
                   in Inr \<lparr>rs_i = i1, rs_j = j1, rs_s = s2\<rparr>)"

function addrandom_loop ::
  "uint8_t list \<Rightarrow> int \<Rightarrow> nat \<Rightarrow> alt_arc4_stream \<Rightarrow> error + alt_arc4_stream" where
  "addrandom_loop dat datlen n r =
     (if n < 256
      then case addrandom_step dat datlen n r of
             Inl x \<Rightarrow> Inl x
           | Inr r' \<Rightarrow> addrandom_loop dat datlen (Suc n) r'
      else Inr r)"
  by pat_completeness auto
termination
  by (relation "measure (\<lambda>(dat, datlen, n, r). 256 - n)") auto

declare addrandom_loop.simps [simp del]

definition alt_arc4_addrandom ::
  "uint8_t list \<Rightarrow> int \<Rightarrow> alt_arc4_stream \<Rightarrow> error + alt_arc4_stream" where
  "alt_arc4_addrandom dat datlen r =
     (case addrandom_loop dat datlen 0 (r\<lparr>rs_i := rs_i r - 1\<rparr>) of
        Inl x \<Rightarrow> Inl x
      | Inr r' \<Rightarrow> Inr (r'\<lparr>rs_j := rs_i r'\<rparr>))"

definition alt_arc4_getbyte :: "alt_arc4_stream \<Rightarrow> uint8_t \<times> alt_arc4_stream" where
  "alt_arc4_getbyte r =
     (let i1 = rs_i r + 1;
          si = rs_s r i1;
          j1 = rs_j r + si;
          sj = rs_s r j1;
          s1 = (rs_s r)(i1 := sj);
          s2 = s1(j1 := si)
      in (s2 (of_nat ((unat si + unat sj) AND 255)), \<lparr>rs_i = i1, rs_j = j1, rs_s = s2\<rparr>))"

definition alt_arc4_getword :: "alt_arc4_stream \<Rightarrow> uint32_t \<times> alt_arc4_stream" where
  "alt_arc4_getword r =
     (let (b1, r1) = alt_arc4_getbyte r;
          val = push_bit 24 (ucast b1 :: uint32_t);
          (b2, r2) = alt_arc4_getbyte r1;
          val = val OR push_bit 16 (ucast b2);
          (b3, r3) = alt_arc4_getbyte r2;
          val = val OR push_bit 8 (ucast b3);
          (b4, r4) = alt_arc4_getbyte r3;
          val = val OR ucast b4
      in (val, r4))"

subsection \<open>Reseed controller\<close>

text \<open>
  Modelled from the spec: \<^verbatim>\<open>safe_read\<close> (declared in \<^verbatim>\<open>safe_rw.h\<close>) is not among the
  sources; it is the reader that retries short and interrupted reads. The call
  \<^verbatim>\<open>safe_read(random_data_source_fd, rnd, sizeof(rnd))\<close> is recorded with its descriptor
  and its size, 128, and the contents of \<^verbatim>\<open>rnd\<close> after it are the environment's.
\<close>

definition safe_read_rnd :: "env \<Rightarrow> state \<Rightarrow> uint8_t list \<times> state" where
  "safe_read_rnd e st =
     (map (rnd_after_read e (length (reads st))) [0..<128],
      st\<lparr>reads := reads st @ [(random_data_source_fd st, 128)]\<rparr>)"

function discard_loop :: "nat \<Rightarrow> alt_arc4_stream \<Rightarrow> alt_arc4_stream" where
  "discard_loop n r = (if n < 256 then discard_loop (Suc n) (snd (alt_arc4_getbyte r)) else r)"
  by pat_completeness auto
termination
  by (relation "measure (\<lambda>(n, r). 256 - n)") auto

declare discard_loop.simps [simp del]

definition alt_arc4_stir :: "env \<Rightarrow> state \<Rightarrow> error + state" where
  "alt_arc4_stir e st =
     (case (if \<not> rs_initialized st
            then case alt_arc4_init e st of
                   Inl x \<Rightarrow> Inl x
                 | Inr st0 \<Rightarrow> Inr (st0\<lparr>rs_initialized := True\<rparr>)
            else Inr st) of
        Inl x \<Rightarrow> Inl x
      | Inr st1 \<Rightarrow>
          (let (rnd, st2) = safe_read_rnd e st1
           in (case alt_arc4_addrandom rnd 128 (rs st2) of
                 Inl x \<Rightarrow> Inl x
               | Inr r \<Rightarrow> Inr (st2\<lparr>rs := discard_loop 0 r, alt_arc4_count := 1600000\<rparr>))))"

definition alt_arc4_stir_if_needed :: "env \<Rightarrow> state \<Rightarrow> error + state" where
  "alt_arc4_stir_if_needed e st =
     (let pid = getpid e
      in if alt_arc4_count st \<le> 0 \<or> \<not> rs_initialized st \<or> alt_arc4_stir_pid st \<noteq> pid
         then alt_arc4_stir e (st\<lparr>alt_arc4_stir_pid := pid\<rparr>)
         else Inr st)"

subsection \<open>Public operations\<close>

definition alt_arc4random_stir :: "env \<Rightarrow> state \<Rightarrow> error + state" where
  "alt_arc4random_stir e st = alt_arc4_stir e st"

definition alt_arc4random_close :: "env \<Rightarrow> state \<Rightarrow> int \<times> state" where
  "alt_arc4random_close e st =
     (if random_data_source_fd st \<noteq> - 1 \<and> close_result e (random_data_source_fd st) = 0
      then (0, st\<lparr>random_data_source_fd := - 1\<rparr>)
      else (- 1, st))"

definition alt_arc4random_addrandom ::
  "env \<Rightarrow> uint8_t list \<Rightarrow> int \<Rightarrow> state \<Rightarrow> error + state" where
  "alt_arc4random_addrandom e dat datlen st =
     (case (if \<not> rs_initialized st then alt_arc4_stir e st else Inr st) of
        Inl x \<Rightarrow> Inl x
      | Inr st1 \<Rightarrow>
          (case alt_arc4_addrandom dat datlen (rs st1) of
             Inl x \<Rightarrow> Inl x
           | Inr r \<Rightarrow> Inr (st1\<lparr>rs := r\<rparr>)))"

definition alt_arc4random :: "env \<Rightarrow> state \<Rightarrow> error + (uint32_t \<times> state)" where
  "alt_arc4random e st =
     (case alt_arc4_stir_if_needed e (st\<lparr>alt_arc4_count := alt_arc4_count st - 4\<rparr>) of
        Inl x \<Rightarrow> Inl x
      | Inr st1 \<Rightarrow>
          (let (val, r) = alt_arc4_getword (rs st1)
           in Inr (val, st1\<lparr>rs := r\<rparr>)))"

text \<open>
  The loop of \<^verbatim>\<open>alt_arc4random_buf\<close>, \<^verbatim>\<open>while (n--)\<close>: the byte drawn in the round
  that starts with \<open>Suc n\<close> bytes to go is stored at \<^verbatim>\<open>buf[n]\<close>. The result is the
  filled buffer, index 0 first.
\<close>

fun buf_loop :: "env \<Rightarrow> nat \<Rightarrow> state \<Rightarrow> error + (uint8_t list \<times> state)" where
  "buf_loop e 0 st = Inr ([], st)"
| "buf_loop e (Suc n) st =
     (let st1 = st\<lparr>alt_arc4_count := alt_arc4_count st - 1\<rparr>
      in case (if alt_arc4_count st1 \<le> 0 then alt_arc4_stir e st1 else Inr st1) of
           Inl x \<Rightarrow> Inl x
         | Inr st2 \<Rightarrow>
             (let (b, r) = alt_arc4_getbyte (rs st2)
              in (case buf_loop e n (st2\<lparr>rs := r\<rparr>) of
                    Inl x \<Rightarrow> Inl x
                  | Inr (low, st3) \<Rightarrow> Inr (low @ [b], st3))))"

definition alt_arc4random_buf :: "env \<Rightarrow> nat \<Rightarrow> state \<Rightarrow> error + (uint8_t list \<times> state)" where
  "alt_arc4random_buf e n st =
     (case alt_arc4_stir_if_needed e st of
        Inl x \<Rightarrow> Inl x
      | Inr st1 \<Rightarrow> buf_loop e n st1)"

text \<open>
  The two ways the file computes \<^verbatim>\<open>min\<close>, chosen at build time by
  \<^verbatim>\<open>ULONG_MAX > 0xffffffffUL\<close>: with a 64-bit \<^verbatim>\<open>unsigned long\<close>, and without.
\<close>

definition uniform_min64 :: "uint32_t \<Rightarrow> uint32_t" where
  "uniform_min64 upper_bound = ucast ((0x100000000 :: 64 word) mod ucast upper_bound)"

definition uniform_min32 :: "uint32_t \<Rightarrow> uint32_t" where
  "uniform_min32 upper_bound =
     (if upper_bound > 0x80000000 then 1 + NOT upper_bound
      else ((0xffffffff - (upper_bound * 2)) + 1) mod upper_bound)"

text \<open>
  The rejection loop \<^verbatim>\<open>for (;;)\<close> has no bound: \<open>None\<close> is the run that never
  leaves it.
\<close>

partial_function (option) uniform_loop ::
  "env \<Rightarrow> uint32_t \<Rightarrow> state \<Rightarrow> (error + (uint32_t \<times> state)) option" where
  "uniform_loop e minv st =
     (case alt_arc4random e st of
        Inl x \<Rightarrow> Some (Inl x)
      | Inr (r, st') \<Rightarrow> if r \<ge> minv then Some (Inr (r, st')) else uniform_loop e minv st')"

definition alt_arc4random_uniform ::
  "bool \<Rightarrow> env \<Rightarrow> uint32_t \<Rightarrow> state \<Rightarrow> (error + (uint32_t \<times> state)) option" where
  "alt_arc4random_uniform ulong64 e upper_bound st =
     (if upper_bound < 2 then Some (Inr (0, st))
      else let minv = (if ulong64 then uniform_min64 upper_bound else uniform_min32 upper_bound)
           in case uniform_loop e minv st of
                None \<Rightarrow> None
              | Some (Inl x) \<Rightarrow> Some (Inl x)
              | Some (Inr (r, st')) \<Rightarrow> Some (Inr (r mod upper_bound, st')))"

subsection \<open>Notions used by the properties\<close>

text \<open>
  Exchanging the entries of a table at two indices, which may be equal; it is the table
  read through the map that exchanges the two indices.
\<close>

definition swap_entries :: "'a \<Rightarrow> 'a \<Rightarrow> ('a \<Rightarrow> 'b) \<Rightarrow> ('a \<Rightarrow> 'b)" where
  "swap_entries a b t = t(a := t b, b := t a)"

definition exchange :: "'a \<Rightarrow> 'a \<Rightarrow> 'a \<Rightarrow> 'a" where
  "exchange a b x = (if x = a then b else if x = b then a else x)"

text \<open>The keystream state that \<^verbatim>\<open>alt_arc4_init\<close> leaves: the identity table, both counters 0.\<close>

definition primed :: alt_arc4_stream where
  "primed = \<lparr>rs_i = 0, rs_j = 0, rs_s = (\<lambda>w. w)\<rparr>"

text \<open>
  A reseed gets past \<^verbatim>\<open>alt_arc4_init\<close>: the generator is initialised already, or a
  descriptor is stored, or one of the devices opens.
\<close>

definition can_open :: "env \<Rightarrow> state \<Rightarrow> bool" where
  "can_open e st \<longleftrightarrow>
     rs_initialized st \<or> random_data_source_fd st \<noteq> - 1 \<or> alt_arc4_random_dev_open e \<noteq> - 1"

text \<open>
  What the reseeding and drawing operations keep: an initialised generator stays
  initialised with the descriptor it has stored, and its table stays a bijection.
\<close>

definition kept :: "state \<Rightarrow> state \<Rightarrow> bool" where
  "kept st st' \<longleftrightarrow>
     (rs_initialized st \<longrightarrow> rs_initialized st' \<and> random_data_source_fd st' = random_data_source_fd st)
     \<and> ((rs_initialized st \<longrightarrow> bij (rs_s (rs st))) \<longrightarrow> (rs_initialized st' \<longrightarrow> bij (rs_s (rs st'))))"

text \<open>
  The words that successive calls of \<^verbatim>\<open>alt_arc4random\<close> return from a state: \<open>nth_draw e k st\<close>
  is the result of the call number \<open>k\<close>, counted from 0, with the statics it leaves.
\<close>

fun nth_draw :: "env \<Rightarrow> nat \<Rightarrow> state \<Rightarrow> error + (uint32_t \<times> state)" where
  "nth_draw e 0 st = alt_arc4random e st"
| "nth_draw e (Suc k) st =
     (case alt_arc4random e st of
        Inl x \<Rightarrow> Inl x
      | Inr (r, st') \<Rightarrow> nth_draw e k st')"

text \<open>
  The draw number \<open>k\<close> returns \<open>r\<close>, at least \<open>minv\<close>, and leaves \<open>st'\<close>; all draws before
  it returned words below \<open>minv\<close>.
\<close>

definition first_accepted ::
  "env \<Rightarrow> uint32_t \<Rightarrow> nat \<Rightarrow> state \<Rightarrow> uint32_t \<Rightarrow> state \<Rightarrow> bool" where
  "first_accepted e minv k st r st' \<longleftrightarrow>
     (\<forall>m<k. case nth_draw e m st of Inl x \<Rightarrow> False | Inr (x, st1) \<Rightarrow> x < minv) \<and>
     nth_draw e k st = Inr (r, st') \<and> minv \<le> r"

text \<open>
  The public operations of the file, and a run of them: each call is made in an environment
  of its own (the process may fork, devices may come and go between calls), and a run stops
  at the first call that ends the process. \<open>None\<close> is a call of
  \<^verbatim>\<open>alt_arc4random_uniform\<close> that never returns.
\<close>

datatype call =
  Stir
| Addrandom "uint8_t list" int
| Random
| Buf nat
| Uniform uint32_t
| Close

fun public_call :: "bool \<Rightarrow> env \<Rightarrow> call \<Rightarrow> state \<Rightarrow> (error + state) option" where
  "public_call u e Stir st = Some (alt_arc4random_stir e st)"
| "public_call u e (Addrandom dat datlen) st = Some (alt_arc4random_addrandom e dat datlen st)"
| "public_call u e Random st =
     Some (case alt_arc4random e st of Inl x \<Rightarrow> Inl x | Inr (val, st') \<Rightarrow> Inr st')"
| "public_call u e (Buf n) st =
     Some (case alt_arc4random_buf e n st of Inl x \<Rightarrow> Inl x | Inr (out, st') \<Rightarrow> Inr st')"
| "public_call u e (Uniform upper_bound) st =
     (case alt_arc4random_uniform u e upper_bound st of
        None \<Rightarrow> None
      | Some (Inl x) \<Rightarrow> Some (Inl x)
      | Some (Inr (val, st')) \<Rightarrow> Some (Inr st'))"
| "public_call u e Close st = Some (Inr (snd (alt_arc4random_close e st)))"

fun run :: "bool \<Rightarrow> (env \<times> call) list \<Rightarrow> state \<Rightarrow> (error + state) option" where
  "run u [] st = Some (Inr st)"
| "run u ((e, c) # rest) st =
     (case public_call u e c st of
        None \<Rightarrow> None
      | Some (Inl x) \<Rightarrow> Some (Inl x)
      | Some (Inr st') \<Rightarrow> run u rest st')"

text \<open>Every byte value appears exactly once in the table.\<close>

definition permutation_table :: "(uint8_t \<Rightarrow> uint8_t) \<Rightarrow> bool" where
  "permutation_table t \<longleftrightarrow> (\<forall>v. \<exists>!k. t k = v)"

definition table_inv :: "state \<Rightarrow> bool" where
  "table_inv st \<longleftrightarrow> (rs_initialized st \<longrightarrow> permutation_table (rs_s (rs st)))"

text \<open>
  The range of \<^verbatim>\<open>alt_arc4_count\<close> between public calls. The model keeps the counter
  as an unbounded integer; within this range the subtractions of 1 and 4 stay far from the
  limits of a C \<^verbatim>\<open>int\<close>.
\<close>

definition count_in_range :: "state \<Rightarrow> bool" where
  "count_in_range st \<longleftrightarrow> 0 \<le> alt_arc4_count st \<and> alt_arc4_count st \<le> 1600000"

text \<open>The next \<open>n\<close> bytes of the keystream, in the order \<^verbatim>\<open>alt_arc4_getbyte\<close> yields them.\<close>

fun keystream :: "nat \<Rightarrow> alt_arc4_stream \<Rightarrow> uint8_t list" where
  "keystream 0 r = []"
| "keystream (Suc n) r = fst (alt_arc4_getbyte r) # keystream n (snd (alt_arc4_getbyte r))"

text \<open>
  The loop of \<^verbatim>\<open>alt_arc4random_buf\<close> entered with the counter at \<open>c\<close> and \<open>n\<close> bytes to
  fill: the number of reseeds it makes, and the counter it leaves. The first reseed comes
  in the round whose decrement reaches 0, which is round \<open>c\<close> for a positive \<open>c\<close> and the
  first round otherwise; each later one comes 1,600,000 rounds after the one before.
\<close>

definition loop_reseeds :: "int \<Rightarrow> nat \<Rightarrow> nat" where
  "loop_reseeds c n =
     (if int n < max c 1 then 0 else 1 + (n - nat (max c 1)) div 1600000)"

definition loop_count_after :: "int \<Rightarrow> nat \<Rightarrow> int" where
  "loop_count_after c n =
     (if int n < max c 1 then c - int n
      else 1600000 - int ((n - nat (max c 1)) mod 1600000))"

text \<open>An initialised generator whose entropy handle has been released.\<close>

definition released :: "state \<Rightarrow> bool" where
  "released st \<longleftrightarrow> rs_initialized st \<and> random_data_source_fd st = - 1"



subsection \<open>Sample inputs\<close>

text \<open>
  A process with identifier 42 on a system where only \<^verbatim>\<open>/dev/urandom\<close> is readable,
  opens as descriptor 3 and yields zero bytes, and where \<^verbatim>\<open>close\<close> succeeds; the same
  system with no readable device; and an initialised generator in that process whose table
  is the identity permutation, with descriptor 3 stored and 100 bytes left until the next
  forced reseed.
\<close>

definition mock_env :: env where
  "mock_env =
     \<lparr>getpid = 42,
      access_ok = (\<lambda>path. path = ''/dev/urandom''),
      open_fd = (\<lambda>path. 3),
      close_result = (\<lambda>fd. 0),
      rnd_after_read = (\<lambda>k n. 0)\<rparr>"


definition ready_state :: state where
  "ready_state =
     \<lparr>rs_initialized = True,
      rs = primed,
      alt_arc4_stir_pid = 42,
      alt_arc4_count = 100,
      random_data_source_fd = 3,
      reads = [(3, 128)]\<rparr>"

text \<open>
  The statics after a first \<^verbatim>\<open>alt_arc4random()\<close> of a fresh generator, and after a
  following \<^verbatim>\<open>alt_arc4random_close()\<close>.
\<close>

definition first_use :: state where
  "first_use = snd (projr (alt_arc4random mock_env initial_state))"

definition closed_after_use :: state where
  "closed_after_use = snd (alt_arc4random_close mock_env first_use)"

section \<open>Properties\<close>

subsection \<open>Table and loop lemmas\<close>

lemma and_255_take_bit: "(n::nat) AND 255 = take_bit 8 n"
  by (simp add: take_bit_eq_mask mask_eq_exp_minus_1)

lemma getbyte_index: "(of_nat ((unat a + unat b) AND 255) :: 8 word) = a + b"
proof -
  have "(of_nat (take_bit 8 (unat a + unat b)) :: 8 word) = take_bit LENGTH(8) (of_nat (unat a + unat b))"
    by (simp add: of_nat_take_bit)
  also have "\<dots> = of_nat (unat a + unat b)"
    by (rule take_bit_length_eq)
  also have "\<dots> = a + b" by simp
  finally show ?thesis by (simp only: and_255_take_bit)
qed

lemma unat_of_nat_8: "n < 256 \<Longrightarrow> unat (of_nat n :: 8 word) = n"
  by (simp add: unat_of_nat)

lemma init_loop_apply:
  "n \<le> 256 \<Longrightarrow> init_loop n t w = (if n \<le> unat w then w else t w)"
proof (induction n t rule: init_loop.induct)
  case (1 n t)
  show ?case
  proof (cases "n < 256")
    case True
    have uw: "unat w < 256" using unsigned_less[of w, where ?'a=nat] by simp
    have eq: "(of_nat n = w) = (n = unat w)"
      using True by (simp add: word_unat_eq_iff unat_of_nat_8)
    have "init_loop n t w = init_loop (Suc n) (t(of_nat n := of_nat n)) w"
      using True by (subst init_loop.simps) simp
    also have "\<dots> = (if Suc n \<le> unat w then w else (t(of_nat n := of_nat n)) w)"
      by (rule "1.IH") (use True in simp_all)
    also have "\<dots> = (if n \<le> unat w then w else t w)"
      using eq by auto
    finally show ?thesis .
  next
    case False
    with "1.prems" have n: "n = 256" by simp
    have uw: "unat w < 256" using unsigned_less[of w, where ?'a=nat] by simp
    show ?thesis using n uw by (subst init_loop.simps) simp
  qed
qed

lemma init_loop_identity: "init_loop 0 t = (\<lambda>w. w)"
  by (rule ext) (simp add: init_loop_apply)

lemma bij_exchange: "bij (exchange a b)"
  by (rule o_bij[where g = "exchange a b"]) (auto simp: exchange_def fun_eq_iff)

lemma swap_entries_comp: "swap_entries a b t = t \<circ> exchange a b"
  by (auto simp: swap_entries_def exchange_def fun_eq_iff)

lemma swap_bij: "bij t \<Longrightarrow> bij (swap_entries a b t)"
  by (simp add: swap_entries_comp bij_comp bij_exchange)

lemma addrandom_step_Inr:
  "addrandom_step dat datlen n r = Inr r' \<Longrightarrow>
     r' = \<lparr>rs_i = rs_i r + 1, rs_j = rs_j r + rs_s r (rs_i r + 1) + dat ! nat (int n smod datlen),
           rs_s = (rs_s r)(rs_i r + 1 := rs_s r (rs_j r + rs_s r (rs_i r + 1) + dat ! nat (int n smod datlen)),
                  rs_j r + rs_s r (rs_i r + 1) + dat ! nat (int n smod datlen) := rs_s r (rs_i r + 1))\<rparr>"
  unfolding addrandom_step_def Let_def by (simp split: if_splits)

lemma addrandom_step_swap:
  "addrandom_step dat datlen n r = Inr r' \<Longrightarrow>
     rs_i r' = rs_i r + 1 \<and> rs_s r' = swap_entries (rs_i r') (rs_j r') (rs_s r)"
  by (drule addrandom_step_Inr) (simp add: swap_entries_def)

lemma smod_range: "1 \<le> d \<Longrightarrow> 0 \<le> int n smod d \<and> int n smod d < d"
  by (simp add: smod_int_alt_def sgn_if)

lemma addrandom_step_ok:
  "1 \<le> datlen \<Longrightarrow> datlen \<le> int (length dat) \<Longrightarrow> \<exists>r'. addrandom_step dat datlen n r = Inr r'"
  using smod_range[of datlen n] unfolding addrandom_step_def Let_def by simp

lemma getbyte_eq:
  "alt_arc4_getbyte r =
     (swap_entries (rs_i r + 1) (rs_j r + rs_s r (rs_i r + 1)) (rs_s r)
         (rs_s r (rs_i r + 1) + rs_s r (rs_j r + rs_s r (rs_i r + 1))),
      \<lparr>rs_i = rs_i r + 1, rs_j = rs_j r + rs_s r (rs_i r + 1),
       rs_s = swap_entries (rs_i r + 1) (rs_j r + rs_s r (rs_i r + 1)) (rs_s r)\<rparr>)"
  unfolding alt_arc4_getbyte_def Let_def swap_entries_def getbyte_index by simp

lemma addrandom_step_bij:
  "addrandom_step dat datlen n r = Inr r' \<Longrightarrow> bij (rs_s r) \<Longrightarrow> bij (rs_s r')"
  by (drule addrandom_step_swap) (simp add: swap_bij)

lemma addrandom_loop_bij:
  "addrandom_loop dat datlen n r = Inr r' \<Longrightarrow> bij (rs_s r) \<Longrightarrow> bij (rs_s r')"
proof (induction dat datlen n r rule: addrandom_loop.induct)
  case (1 dat datlen n r)
  show ?case
  proof (cases "n < 256")
    case True
    from "1.prems"(1) True obtain r1 where
      s: "addrandom_step dat datlen n r = Inr r1" and
      l: "addrandom_loop dat datlen (Suc n) r1 = Inr r'"
      by (subst (asm) addrandom_loop.simps) (auto split: sum.splits)
    from "1.IH"[OF True s l] addrandom_step_bij[OF s "1.prems"(2)] show ?thesis .
  next
    case False
    with "1.prems" show ?thesis
      by (subst (asm) addrandom_loop.simps) simp
  qed
qed

lemma addrandom_loop_ok:
  "1 \<le> datlen \<Longrightarrow> datlen \<le> int (length dat) \<Longrightarrow> \<exists>r'. addrandom_loop dat datlen n r = Inr r'"
proof (induction dat datlen n r rule: addrandom_loop.induct)
  case (1 dat datlen n r)
  show ?case
  proof (cases "n < 256")
    case True
    obtain r1 where s: "addrandom_step dat datlen n r = Inr r1"
      using addrandom_step_ok[OF "1.prems"] by blast
    from "1.IH"[OF True s "1.prems"] obtain r' where
      "addrandom_loop dat datlen (Suc n) r1 = Inr r'" by blast
    with s True show ?thesis
      by (subst addrandom_loop.simps) simp
  next
    case False
    then show ?thesis by (subst addrandom_loop.simps) simp
  qed
qed

lemma addrandom_step_div0: "(addrandom_step dat datlen n r = Inl DIV_BY_ZERO) = (datlen = 0)"
  unfolding addrandom_step_def Let_def by simp

lemma addrandom_loop_div0:
  "n < 256 \<Longrightarrow> (addrandom_loop dat datlen n r = Inl DIV_BY_ZERO) = (datlen = 0)"
proof (induction dat datlen n r rule: addrandom_loop.induct)
  case (1 dat datlen n r)
  show ?case
  proof (cases "datlen = 0")
    case True
    then show ?thesis using "1.prems"
      by (subst addrandom_loop.simps) (simp add: addrandom_step_def)
  next
    case nz: False
    show ?thesis
    proof (cases "addrandom_step dat datlen n r")
      case (Inl x)
      with nz have "x \<noteq> DIV_BY_ZERO" using addrandom_step_div0[of dat datlen n r] by auto
      with Inl nz "1.prems" show ?thesis by (subst addrandom_loop.simps) simp
    next
      case (Inr r1)
      show ?thesis
      proof (cases "Suc n < 256")
        case True
        from "1.IH"[OF "1.prems" Inr True] Inr "1.prems" show ?thesis
          by (subst addrandom_loop.simps) simp
      next
        case False
        then have "addrandom_loop dat datlen (Suc n) r1 = Inr r1"
          by (subst addrandom_loop.simps) simp
        with Inr nz "1.prems" show ?thesis by (subst addrandom_loop.simps) simp
      qed
    qed
  qed
qed

lemma alt_arc4_addrandom_bij:
  "alt_arc4_addrandom dat datlen r = Inr r' \<Longrightarrow> bij (rs_s r) \<Longrightarrow> bij (rs_s r')"
  unfolding alt_arc4_addrandom_def
  by (auto split: sum.splits dest!: addrandom_loop_bij)

lemma alt_arc4_addrandom_ok:
  "1 \<le> datlen \<Longrightarrow> datlen \<le> int (length dat) \<Longrightarrow> \<exists>r'. alt_arc4_addrandom dat datlen r = Inr r'"
  using addrandom_loop_ok[of datlen dat 0 "r\<lparr>rs_i := rs_i r - 1\<rparr>"]
  unfolding alt_arc4_addrandom_def by auto

lemma alt_arc4_addrandom_div0:
  "(alt_arc4_addrandom dat datlen r = Inl DIV_BY_ZERO) = (datlen = 0)"
  using addrandom_loop_div0[of 0 dat datlen "r\<lparr>rs_i := rs_i r - 1\<rparr>"]
  unfolding alt_arc4_addrandom_def by (auto split: sum.splits)

lemma getbyte_bij: "bij (rs_s r) \<Longrightarrow> bij (rs_s (snd (alt_arc4_getbyte r)))"
  by (simp add: getbyte_eq swap_bij)

lemma discard_loop_funpow:
  "n \<le> 256 \<Longrightarrow> discard_loop n r = ((\<lambda>r. snd (alt_arc4_getbyte r)) ^^ (256 - n)) r"
proof (induction n r rule: discard_loop.induct)
  case (1 n r)
  show ?case
  proof (cases "n < 256")
    case True
    then have "256 - n = Suc (256 - Suc n)" by simp
    then have "((\<lambda>r. snd (alt_arc4_getbyte r)) ^^ (256 - n)) r =
               ((\<lambda>r. snd (alt_arc4_getbyte r)) ^^ (256 - Suc n)) (snd (alt_arc4_getbyte r))"
      by (simp only: funpow_Suc_right o_apply)
    with "1.IH"[OF True] True show ?thesis
      by (subst discard_loop.simps) simp
  next
    case False
    with "1.prems" show ?thesis by (subst discard_loop.simps) simp
  qed
qed

lemma funpow_getbyte_bij:
  "bij (rs_s r) \<Longrightarrow> bij (rs_s (((\<lambda>r. snd (alt_arc4_getbyte r)) ^^ k) r))"
  by (induction k) (simp_all add: getbyte_bij)

lemma discard_loop_bij: "bij (rs_s r) \<Longrightarrow> bij (rs_s (discard_loop 0 r))"
  by (simp add: discard_loop_funpow funpow_getbyte_bij)

subsection \<open>The reseed\<close>

lemma alt_arc4_init_eq:
  "alt_arc4_init e st =
     (if random_data_source_fd st \<noteq> - 1 then Inr (st\<lparr>rs := primed\<rparr>)
      else if alt_arc4_random_dev_open e = - 1 then Inl ABORT
      else Inr (st\<lparr>rs := primed, random_data_source_fd := alt_arc4_random_dev_open e\<rparr>))"
  unfolding alt_arc4_init_def Let_def primed_def init_loop_identity by simp

lemma length_rnd: "length (fst (safe_read_rnd e st)) = 128"
  by (simp add: safe_read_rnd_def)

lemma snd_safe_read_rnd:
  "snd (safe_read_rnd e st) = st\<lparr>reads := reads st @ [(random_data_source_fd st, 128)]\<rparr>"
  by (simp add: safe_read_rnd_def)

lemma addrandom_rnd_ok: "\<exists>r'. alt_arc4_addrandom (fst (safe_read_rnd e st)) 128 r = Inr r'"
  by (rule alt_arc4_addrandom_ok) (simp_all add: length_rnd)

lemma stir_initialized:
  assumes "rs_initialized st"
  shows "\<exists>r. alt_arc4_addrandom (fst (safe_read_rnd e st)) 128 (rs st) = Inr r \<and>
             alt_arc4_stir e st =
               Inr (st\<lparr>reads := reads st @ [(random_data_source_fd st, 128)],
                       rs := discard_loop 0 r, alt_arc4_count := 1600000\<rparr>)"
proof -
  obtain r where r: "alt_arc4_addrandom (fst (safe_read_rnd e st)) 128 (rs st) = Inr r"
    using addrandom_rnd_ok by blast
  have "alt_arc4_stir e st =
          Inr (st\<lparr>reads := reads st @ [(random_data_source_fd st, 128)],
                  rs := discard_loop 0 r, alt_arc4_count := 1600000\<rparr>)"
    using assms r unfolding alt_arc4_stir_def
    by (simp add: split_beta snd_safe_read_rnd)
  with r show ?thesis by blast
qed

lemma stir_uninitialized:
  "\<not> rs_initialized st \<Longrightarrow>
     alt_arc4_stir e st =
       (case alt_arc4_init e st of
          Inl x \<Rightarrow> Inl x
        | Inr st0 \<Rightarrow> alt_arc4_stir e (st0\<lparr>rs_initialized := True\<rparr>))"
  unfolding alt_arc4_stir_def by (simp split: sum.splits)

lemma stir_cases:
  obtains (abort) "\<not> can_open e st" "alt_arc4_stir e st = Inl ABORT"
  | (ok) st1 r where "can_open e st"
      "st1 = (if rs_initialized st then st
              else if random_data_source_fd st \<noteq> - 1 then st\<lparr>rs := primed, rs_initialized := True\<rparr>
              else st\<lparr>rs := primed, random_data_source_fd := alt_arc4_random_dev_open e,
                      rs_initialized := True\<rparr>)"
      "alt_arc4_addrandom (fst (safe_read_rnd e st1)) 128 (rs st1) = Inr r"
      "alt_arc4_stir e st =
         Inr (st1\<lparr>reads := reads st1 @ [(random_data_source_fd st1, 128)],
                  rs := discard_loop 0 r, alt_arc4_count := 1600000\<rparr>)"
proof (cases "rs_initialized st")
  case True
  with stir_initialized[OF True, of e] ok show ?thesis
    by (auto simp: can_open_def)
next
  case False
  show ?thesis
  proof (cases "random_data_source_fd st = - 1 \<and> alt_arc4_random_dev_open e = - 1")
    case True
    with False have "alt_arc4_stir e st = Inl ABORT"
      by (simp add: stir_uninitialized alt_arc4_init_eq)
    with True False abort show ?thesis by (simp add: can_open_def)
  next
    case nf: False
    define st1 where "st1 = (if random_data_source_fd st \<noteq> - 1 then st\<lparr>rs := primed, rs_initialized := True\<rparr>
              else st\<lparr>rs := primed, random_data_source_fd := alt_arc4_random_dev_open e,
                      rs_initialized := True\<rparr>)"
    have i: "rs_initialized st1" by (simp add: st1_def)
    have eq: "alt_arc4_stir e st = alt_arc4_stir e st1"
      using False nf by (auto simp: stir_uninitialized alt_arc4_init_eq st1_def)
    from stir_initialized[OF i, of e] obtain r where
      r: "alt_arc4_addrandom (fst (safe_read_rnd e st1)) 128 (rs st1) = Inr r" and
      s: "alt_arc4_stir e st1 =
            Inr (st1\<lparr>reads := reads st1 @ [(random_data_source_fd st1, 128)],
                     rs := discard_loop 0 r, alt_arc4_count := 1600000\<rparr>)"
      by blast
    show ?thesis
    proof (rule ok[of st1 r])
      show "can_open e st" using nf by (auto simp: can_open_def)
      show "st1 = (if rs_initialized st then st
              else if random_data_source_fd st \<noteq> - 1 then st\<lparr>rs := primed, rs_initialized := True\<rparr>
              else st\<lparr>rs := primed, random_data_source_fd := alt_arc4_random_dev_open e,
                      rs_initialized := True\<rparr>)"
        using False by (simp add: st1_def)
      show "alt_arc4_addrandom (fst (safe_read_rnd e st1)) 128 (rs st1) = Inr r" by (rule r)
      show "alt_arc4_stir e st =
         Inr (st1\<lparr>reads := reads st1 @ [(random_data_source_fd st1, 128)],
                  rs := discard_loop 0 r, alt_arc4_count := 1600000\<rparr>)"
        using eq s by simp
    qed
  qed
qed

lemma stir_Inr:
  assumes "alt_arc4_stir e st = Inr st'"
  shows "rs_initialized st'" "alt_arc4_count st' = 1600000"
    "alt_arc4_stir_pid st' = alt_arc4_stir_pid st"
    "length (reads st') = Suc (length (reads st))"
    "rs_initialized st \<Longrightarrow> random_data_source_fd st' = random_data_source_fd st"
    "(rs_initialized st \<longrightarrow> bij (rs_s (rs st))) \<Longrightarrow> bij (rs_s (rs st'))"
proof -
  show "rs_initialized st'" using assms by (cases rule: stir_cases[of e st]) (auto split: if_splits)
  show "alt_arc4_count st' = 1600000" using assms by (cases rule: stir_cases[of e st]) auto
  show "alt_arc4_stir_pid st' = alt_arc4_stir_pid st"
    using assms by (cases rule: stir_cases[of e st]) (auto split: if_splits)
  show "length (reads st') = Suc (length (reads st))"
    using assms by (cases rule: stir_cases[of e st]) (auto split: if_splits)
  show "rs_initialized st \<Longrightarrow> random_data_source_fd st' = random_data_source_fd st"
    using assms by (cases rule: stir_cases[of e st]) (auto split: if_splits)
  show "(rs_initialized st \<longrightarrow> bij (rs_s (rs st))) \<Longrightarrow> bij (rs_s (rs st'))"
  proof -
    assume inv: "rs_initialized st \<longrightarrow> bij (rs_s (rs st))"
    show ?thesis
    proof (cases rule: stir_cases[of e st])
      case abort with assms show ?thesis by simp
    next
      case (ok st1 r)
      have "bij (rs_s (rs st1))" using inv ok(2) by (auto simp: primed_def bij_def inj_def)
      with ok(3) have "bij (rs_s r)" by (rule alt_arc4_addrandom_bij)
      then have "bij (rs_s (discard_loop 0 r))" by (rule discard_loop_bij)
      with ok(4) assms show ?thesis by auto
    qed
  qed
qed

lemma stir_Inl: "alt_arc4_stir e st = Inl x \<Longrightarrow> x = ABORT \<and> \<not> can_open e st"
  by (cases rule: stir_cases[of e st]) auto

lemma stir_ok: "can_open e st \<Longrightarrow> \<exists>st'. alt_arc4_stir e st = Inr st'"
  by (cases rule: stir_cases[of e st]) auto

subsection \<open>The bound of the rejection loop\<close>

lemma unat_neg32: "w \<noteq> 0 \<Longrightarrow> unat (- w :: 32 word) = 4294967296 - unat w"
  using unat_sub_if_size[of 0 w] by (simp add: word_size unat_eq_0)

lemma min32_high_eq: "(1 + NOT U :: 32 word) = - U"
  by (simp add: minus_eq_not_plus_1)

lemma min32_low_eq: "((0xffffffff - (U * 2)) + 1 :: 32 word) = - (U * 2)"
  by simp

lemma unat_gt_half: "(U :: 32 word) > 0x80000000 \<longleftrightarrow> unat U > 2147483648"
  by (simp add: word_less_nat_alt)

lemma unat_ge_2: "(2 :: 32 word) \<le> U \<longleftrightarrow> 2 \<le> unat U"
  by (simp add: word_le_nat_alt)

lemma unat_32_bound: "unat (U :: 32 word) < 4294967296"
  using unsigned_less[of U, where ?'a = nat] by simp

lemma uniform_min32_high:
  assumes "(U :: 32 word) > 0x80000000"
  shows "unat (uniform_min32 U) = 4294967296 - unat U"
    and "4294967296 - unat U = 4294967296 mod unat U"
proof -
  from assms have g: "unat U > 2147483648" by (simp add: unat_gt_half)
  then have nz: "U \<noteq> 0" by auto
  show "unat (uniform_min32 U) = 4294967296 - unat U"
    using assms nz by (simp add: uniform_min32_def min32_high_eq unat_neg32)
  have b: "unat U < 4294967296" by (rule unat_32_bound)
  have "4294967296 mod unat U = (4294967296 - unat U) mod unat U"
    using b by (simp add: le_mod_geq)
  also have "\<dots> = 4294967296 - unat U"
    using g b by simp
  finally show "4294967296 - unat U = 4294967296 mod unat U" by simp
qed

lemma uniform_min32_low:
  assumes "2 \<le> (U :: 32 word)" "U \<le> 0x80000000"
  shows "unat (uniform_min32 U) = 4294967296 mod unat U"
proof -
  from assms have u2: "2 \<le> unat U" and ub: "unat U \<le> 2147483648"
    by (simp_all add: word_le_nat_alt)
  have d: "uniform_min32 U = (- (U * 2)) mod U"
    using assms(2) by (simp add: uniform_min32_def min32_low_eq not_less[symmetric])
  show ?thesis
  proof (cases "unat U = 2147483648")
    case True
    then have "U = 0x80000000" by (simp add: word_unat_eq_iff)
    then show ?thesis using d by simp
  next
    case False
    with ub have lt: "unat U * 2 < 4294967296" by simp
    have m: "unat (U * 2) = unat U * 2"
      using lt by (simp add: unat_word_ariths)
    then have nz: "U * 2 \<noteq> 0" using u2 by (auto simp: word_unat_eq_iff)
    have "unat (uniform_min32 U) = (4294967296 - unat U * 2) mod unat U"
      by (simp add: d unat_mod_distrib unat_neg32[OF nz] m)
    also have "\<dots> = ((4294967296 - unat U * 2) + 2 * unat U) mod unat U"
      by (simp only: mod_mult_self1)
    also have "(4294967296 - unat U * 2) + 2 * unat U = 4294967296"
      using lt by simp
    finally show ?thesis .
  qed
qed

lemma uniform_min64_unat: "U \<noteq> 0 \<Longrightarrow> unat (uniform_min64 U) = 4294967296 mod unat U"
proof -
  assume nz: "U \<noteq> 0"
  have b: "unat U < 4294967296" by (rule unat_32_bound)
  have pos: "0 < unat U" using nz by (simp add: unat_gt_0)
  have up: "unat (ucast U :: 64 word) = unat U"
    using b by (simp add: unsigned_ucast_eq take_bit_nat_eq_self)
  have v: "unat ((0x100000000 :: 64 word) mod ucast U) = 4294967296 mod unat U"
    by (simp add: unat_mod_distrib up)
  have lt: "4294967296 mod unat U < 4294967296"
    using pos b by (meson mod_less_divisor less_trans)
  have "unat (uniform_min64 U) = take_bit 32 (4294967296 mod unat U)"
    unfolding uniform_min64_def by (simp only: unsigned_ucast_eq v) simp
  also have "\<dots> = 4294967296 mod unat U"
    using lt by (simp add: take_bit_nat_eq_self)
  finally show ?thesis .
qed

lemma uniform_min_agree: "2 \<le> U \<Longrightarrow> uniform_min32 U = uniform_min64 U"
proof -
  assume u: "2 \<le> U"
  then have nz: "U \<noteq> 0" by auto
  have "unat (uniform_min32 U) = 4294967296 mod unat U"
  proof (cases "U > 0x80000000")
    case True
    then show ?thesis using uniform_min32_high[OF True] by simp
  next
    case False
    then show ?thesis using uniform_min32_low[OF u] by (simp add: not_less)
  qed
  then show ?thesis using uniform_min64_unat[OF nz] by (simp add: word_unat_eq_iff)
qed

subsection \<open>Words from bytes\<close>

lemma unat_8_bound: "unat (b :: 8 word) < 256"
  using unsigned_less[of b, where ?'a = nat] by simp

lemma unat_ucast_8_32: "unat (ucast (b :: 8 word) :: 32 word) = unat b"
  using unat_8_bound[of b] by (simp add: unsigned_ucast_eq take_bit_nat_eq_self)

lemma unat_shifted_byte:
  "k \<le> 24 \<Longrightarrow> unat (push_bit k (ucast (b :: 8 word)) :: 32 word) = unat b * 2 ^ k"
proof -
  assume k: "k \<le> 24"
  have "unat b * 2 ^ k < 256 * 2 ^ k"
    using unat_8_bound[of b] by simp
  also have "(256::nat) * 2 ^ k = 2 ^ (8 + k)" by (simp add: power_add)
  also have "\<dots> \<le> (2::nat) ^ 32" using k by (intro power_increasing) simp_all
  finally have lt: "unat b * 2 ^ k < 2 ^ 32" .
  have "unat (push_bit k (ucast b) :: 32 word) = take_bit 32 (push_bit k (unat b))"
    by (simp add: unsigned_push_bit_eq unat_ucast_8_32)
  also have "\<dots> = unat b * 2 ^ k"
    using lt by (simp add: push_bit_eq_mult take_bit_nat_eq_self)
  finally show ?thesis .
qed

lemma bit_shifted_byte:
  "bit (push_bit k (ucast (b :: 8 word)) :: 32 word) n \<Longrightarrow> k \<le> n \<and> n < k + 8"
  by (auto simp: bit_simps dest: bit_imp_le_length)

lemma unat_or_disjoint:
  fixes a b :: "32 word"
  assumes "\<And>n. \<not> bit a n \<or> \<not> bit b n" "unat a + unat b < 2 ^ 32"
  shows "unat (a OR b) = unat a + unat b"
proof -
  have "a OR b = a + b" using disjunctive_add[of a b] assms(1) by simp
  then show ?thesis using assms(2) by (simp add: unat_add_lem[THEN iffD1])
qed

lemma unat_big_endian:
  fixes b1 b2 b3 b4 :: "8 word"
  shows "unat (((push_bit 24 (ucast b1) OR push_bit 16 (ucast b2)) OR push_bit 8 (ucast b3)) OR ucast b4 :: 32 word)
         = unat b1 * 2 ^ 24 + unat b2 * 2 ^ 16 + unat b3 * 2 ^ 8 + unat b4"
proof -
  let ?x1 = "push_bit 24 (ucast b1) :: 32 word"
  let ?x2 = "push_bit 16 (ucast b2) :: 32 word"
  let ?x3 = "push_bit 8 (ucast b3) :: 32 word"
  let ?x4 = "push_bit 0 (ucast b4) :: 32 word"
  note B = unat_8_bound[of b1] unat_8_bound[of b2] unat_8_bound[of b3] unat_8_bound[of b4]
  have u1: "unat ?x1 = unat b1 * 2 ^ 24" by (simp add: unat_shifted_byte)
  have u2: "unat ?x2 = unat b2 * 2 ^ 16" by (simp add: unat_shifted_byte)
  have u3: "unat ?x3 = unat b3 * 2 ^ 8" by (simp add: unat_shifted_byte)
  have u4: "unat ?x4 = unat b4" using unat_shifted_byte[of 0 b4] by simp
  have s12: "unat (?x1 OR ?x2) = unat ?x1 + unat ?x2"
  proof (rule unat_or_disjoint)
    fix n show "\<not> bit ?x1 n \<or> \<not> bit ?x2 n"
      using bit_shifted_byte[of 24 b1 n] bit_shifted_byte[of 16 b2 n] by auto
    show "unat ?x1 + unat ?x2 < 2 ^ 32" using B unfolding u1 u2 by simp
  qed
  have s123: "unat ((?x1 OR ?x2) OR ?x3) = unat (?x1 OR ?x2) + unat ?x3"
  proof (rule unat_or_disjoint)
    fix n show "\<not> bit (?x1 OR ?x2) n \<or> \<not> bit ?x3 n"
      using bit_shifted_byte[of 24 b1 n] bit_shifted_byte[of 16 b2 n] bit_shifted_byte[of 8 b3 n]
      by (auto simp: bit_or_iff)
    show "unat (?x1 OR ?x2) + unat ?x3 < 2 ^ 32" using B unfolding s12 u1 u2 u3 by simp
  qed
  have s1234: "unat (((?x1 OR ?x2) OR ?x3) OR ?x4) = unat ((?x1 OR ?x2) OR ?x3) + unat ?x4"
  proof (rule unat_or_disjoint)
    fix n show "\<not> bit ((?x1 OR ?x2) OR ?x3) n \<or> \<not> bit ?x4 n"
      using bit_shifted_byte[of 24 b1 n] bit_shifted_byte[of 16 b2 n] bit_shifted_byte[of 8 b3 n]
        bit_shifted_byte[of 0 b4 n]
      by (auto simp: bit_or_iff)
    show "unat ((?x1 OR ?x2) OR ?x3) + unat ?x4 < 2 ^ 32" using B unfolding s123 s12 u1 u2 u3 u4 by simp
  qed
  show ?thesis using s1234 unfolding s123 s12 u1 u2 u3 u4 by simp
qed

lemma getword_eq:
  "alt_arc4_getword r =
     (((push_bit 24 (ucast (fst (alt_arc4_getbyte r))) OR
        push_bit 16 (ucast (fst (alt_arc4_getbyte (snd (alt_arc4_getbyte r)))))) OR
        push_bit 8 (ucast (fst (alt_arc4_getbyte (snd (alt_arc4_getbyte (snd (alt_arc4_getbyte r)))))))) OR
        ucast (fst (alt_arc4_getbyte (snd (alt_arc4_getbyte (snd (alt_arc4_getbyte (snd (alt_arc4_getbyte r)))))))),
      snd (alt_arc4_getbyte (snd (alt_arc4_getbyte (snd (alt_arc4_getbyte (snd (alt_arc4_getbyte r))))))))"
  unfolding alt_arc4_getword_def Let_def by (simp add: split_beta)

lemma getword_bij: "bij (rs_s r) \<Longrightarrow> bij (rs_s (snd (alt_arc4_getword r)))"
  unfolding getword_eq by (simp add: getbyte_bij)

subsection \<open>Reseeding on demand\<close>

lemma stir_if_needed_trigger:
  "alt_arc4_count st \<le> 0 \<or> \<not> rs_initialized st \<or> alt_arc4_stir_pid st \<noteq> getpid e \<Longrightarrow>
     alt_arc4_stir_if_needed e st = alt_arc4_stir e (st\<lparr>alt_arc4_stir_pid := getpid e\<rparr>)"
  unfolding alt_arc4_stir_if_needed_def Let_def by simp

lemma stir_if_needed_quiet:
  "0 < alt_arc4_count st \<Longrightarrow> rs_initialized st \<Longrightarrow> alt_arc4_stir_pid st = getpid e \<Longrightarrow>
     alt_arc4_stir_if_needed e st = Inr st"
  unfolding alt_arc4_stir_if_needed_def Let_def by simp

lemma can_open_pid [simp]: "can_open e (st\<lparr>alt_arc4_stir_pid := p\<rparr>) = can_open e st"
  by (simp add: can_open_def)

lemma can_open_count [simp]: "can_open e (st\<lparr>alt_arc4_count := c\<rparr>) = can_open e st"
  by (simp add: can_open_def)

lemma stir_reads:
  "alt_arc4_stir e st = Inr st' \<Longrightarrow>
     reads st' = reads st @ [(random_data_source_fd st', 128)]"
  by (cases rule: stir_cases[of e st]) (auto split: if_splits)


lemma stir_fd_kept:
  "alt_arc4_stir e st = Inr st' \<Longrightarrow> rs_initialized st \<Longrightarrow>
     random_data_source_fd st' = random_data_source_fd st"
  by (rule stir_Inr(5))

lemma random_eq:
  "alt_arc4random e st =
     (case alt_arc4_stir_if_needed e (st\<lparr>alt_arc4_count := alt_arc4_count st - 4\<rparr>) of
        Inl x \<Rightarrow> Inl x
      | Inr st1 \<Rightarrow> Inr (fst (alt_arc4_getword (rs st1)), st1\<lparr>rs := snd (alt_arc4_getword (rs st1))\<rparr>))"
  unfolding alt_arc4random_def by (simp add: split_beta split: sum.splits)

lemma random_quiet:
  "4 < alt_arc4_count st \<Longrightarrow> rs_initialized st \<Longrightarrow> alt_arc4_stir_pid st = getpid e \<Longrightarrow>
     alt_arc4random e st =
       Inr (fst (alt_arc4_getword (rs st)),
            st\<lparr>alt_arc4_count := alt_arc4_count st - 4, rs := snd (alt_arc4_getword (rs st))\<rparr>)"
  by (simp add: random_eq stir_if_needed_quiet)

lemma random_trigger:
  "alt_arc4_count st - 4 \<le> 0 \<or> \<not> rs_initialized st \<or> alt_arc4_stir_pid st \<noteq> getpid e \<Longrightarrow>
     alt_arc4random e st =
      (case alt_arc4_stir e (st\<lparr>alt_arc4_count := alt_arc4_count st - 4, alt_arc4_stir_pid := getpid e\<rparr>) of
        Inl x \<Rightarrow> Inl x
      | Inr st1 \<Rightarrow> Inr (fst (alt_arc4_getword (rs st1)), st1\<lparr>rs := snd (alt_arc4_getword (rs st1))\<rparr>))"
  by (simp add: random_eq stir_if_needed_trigger)

lemma stir_if_needed_Inr:
  assumes "alt_arc4_stir_if_needed e st = Inr st'"
  shows "rs_initialized st'" "alt_arc4_stir_pid st' = getpid e" "0 < alt_arc4_count st'"
    "(rs_initialized st \<longrightarrow> bij (rs_s (rs st))) \<Longrightarrow> bij (rs_s (rs st'))"
    "rs_initialized st \<Longrightarrow> random_data_source_fd st' = random_data_source_fd st"
proof -
  consider (t) "alt_arc4_count st \<le> 0 \<or> \<not> rs_initialized st \<or> alt_arc4_stir_pid st \<noteq> getpid e"
    | (q) "0 < alt_arc4_count st" "rs_initialized st" "alt_arc4_stir_pid st = getpid e"
    by fastforce
  note cs = this
  have s: "alt_arc4_count st \<le> 0 \<or> \<not> rs_initialized st \<or> alt_arc4_stir_pid st \<noteq> getpid e \<Longrightarrow>
     alt_arc4_stir e (st\<lparr>alt_arc4_stir_pid := getpid e\<rparr>) = Inr st'"
    using assms by (simp add: stir_if_needed_trigger)
  have same: "0 < alt_arc4_count st \<Longrightarrow> rs_initialized st \<Longrightarrow> alt_arc4_stir_pid st = getpid e \<Longrightarrow> st' = st"
    using assms by (simp add: stir_if_needed_quiet)
  show "rs_initialized st'" using cs s same stir_Inr(1) by metis
  show "alt_arc4_stir_pid st' = getpid e"
  proof (cases rule: cs)
    case t from stir_Inr(3)[OF s[OF t]] show ?thesis by simp
  next
    case q with same
    show ?thesis by simp
  qed
  show "0 < alt_arc4_count st'"
  proof (cases rule: cs)
    case t from stir_Inr(2)[OF s[OF t]] show ?thesis by simp
  next
    case q with same
    show ?thesis by simp
  qed
  show "(rs_initialized st \<longrightarrow> bij (rs_s (rs st))) \<Longrightarrow> bij (rs_s (rs st'))"
  proof (cases rule: cs)
    case t 
    assume "rs_initialized st \<longrightarrow> bij (rs_s (rs st))"
    with stir_Inr(6)[OF s[OF t]] show ?thesis by simp
  next
    case q 
    assume "rs_initialized st \<longrightarrow> bij (rs_s (rs st))"
    with q same
    show ?thesis by simp
  qed
  show "rs_initialized st \<Longrightarrow> random_data_source_fd st' = random_data_source_fd st"
  proof (cases rule: cs)
    case t
    assume "rs_initialized st"
    with stir_Inr(5)[OF s[OF t]] show ?thesis by simp
  next
    case q with same
    show ?thesis by simp
  qed
qed

subsection \<open>The sample environment\<close>

lemma mock_dev_open: "alt_arc4_random_dev_open mock_env = 3"
  by (simp add: alt_arc4_random_dev_open_def devices_def mock_env_def)

lemma mock_can_open: "can_open mock_env st"
  by (simp add: can_open_def mock_dev_open)

subsection \<open>The buffer loop\<close>

lemma can_open_rs [simp]: "can_open e (st\<lparr>rs := r\<rparr>) = can_open e st"
  by (simp add: can_open_def)

lemma stir_can_open: "alt_arc4_stir e st = Inr st' \<Longrightarrow> can_open e' st'"
  using stir_Inr(1)[of e st st'] by (simp add: can_open_def)

lemma buf_loop_Suc:
  "buf_loop e (Suc n) st =
     (case (if alt_arc4_count st \<le> 1 then alt_arc4_stir e (st\<lparr>alt_arc4_count := alt_arc4_count st - 1\<rparr>)
            else Inr (st\<lparr>alt_arc4_count := alt_arc4_count st - 1\<rparr>)) of
        Inl x \<Rightarrow> Inl x
      | Inr st2 \<Rightarrow>
          (case buf_loop e n (st2\<lparr>rs := snd (alt_arc4_getbyte (rs st2))\<rparr>) of
             Inl x \<Rightarrow> Inl x
           | Inr (low, st3) \<Rightarrow> Inr (low @ [fst (alt_arc4_getbyte (rs st2))], st3)))"
  by (simp add: Let_def split_beta split: sum.splits)

lemma buf_loop_length: "buf_loop e n st = Inr (out, st') \<Longrightarrow> length out = n"
proof (induction n arbitrary: st out st')
  case 0
  then show ?case by simp
next
  case (Suc n)
  from Suc.prems obtain st2 low where
    l: "buf_loop e n (st2\<lparr>rs := snd (alt_arc4_getbyte (rs st2))\<rparr>) = Inr (low, st')" and
    o: "out = low @ [fst (alt_arc4_getbyte (rs st2))]"
    unfolding buf_loop_Suc by (auto split: sum.splits if_splits)
  from Suc.IH[OF l] o show ?case by simp
qed

lemma buf_loop_ok:
  "can_open e st \<Longrightarrow> \<exists>out st'. buf_loop e n st = Inr (out, st')"
proof (induction n arbitrary: st)
  case 0
  then show ?case by simp
next
  case (Suc n)
  have "\<exists>st2. (if alt_arc4_count st \<le> 1 then alt_arc4_stir e (st\<lparr>alt_arc4_count := alt_arc4_count st - 1\<rparr>)
            else Inr (st\<lparr>alt_arc4_count := alt_arc4_count st - 1\<rparr>)) = Inr st2"
  proof (cases "alt_arc4_count st \<le> 1")
    case True
    from Suc.prems have "can_open e (st\<lparr>alt_arc4_count := alt_arc4_count st - 1\<rparr>)" by simp
    from stir_ok[OF this] True show ?thesis by simp
  next
    case False
    then show ?thesis by simp
  qed
  then obtain st2 where
    s: "(if alt_arc4_count st \<le> 1 then alt_arc4_stir e (st\<lparr>alt_arc4_count := alt_arc4_count st - 1\<rparr>)
            else Inr (st\<lparr>alt_arc4_count := alt_arc4_count st - 1\<rparr>)) = Inr st2" by blast
  then have "can_open e st2"
    using Suc.prems stir_can_open[of e "st\<lparr>alt_arc4_count := alt_arc4_count st - 1\<rparr>" st2 e]
    by (auto split: if_splits)
  then have "can_open e (st2\<lparr>rs := snd (alt_arc4_getbyte (rs st2))\<rparr>)" by simp
  from Suc.IH[OF this] obtain low st3 where
    "buf_loop e n (st2\<lparr>rs := snd (alt_arc4_getbyte (rs st2))\<rparr>) = Inr (low, st3)" by blast
  with s show ?case unfolding buf_loop_Suc by simp
qed

subsection \<open>What the operations keep\<close>

lemma kept_refl: "kept st st"
  by (simp add: kept_def)

lemma kept_trans: "kept a b \<Longrightarrow> kept b c \<Longrightarrow> kept a c"
  by (auto simp: kept_def)

lemma kept_count: "kept (st\<lparr>alt_arc4_count := c\<rparr>) st' = kept st st'"
  by (simp add: kept_def)

lemma kept_pid: "kept (st\<lparr>alt_arc4_stir_pid := c\<rparr>) st' = kept st st'"
  by (simp add: kept_def)

lemma kept_stir: "alt_arc4_stir e st = Inr st' \<Longrightarrow> kept st st'"
  using stir_Inr(1,5,6)[of e st st'] by (auto simp: kept_def)

lemma kept_stir_if_needed: "alt_arc4_stir_if_needed e st = Inr st' \<Longrightarrow> kept st st'"
  using stir_if_needed_Inr(1,4,5)[of e st st'] by (auto simp: kept_def)

lemma kept_getbyte: "kept st (st\<lparr>rs := snd (alt_arc4_getbyte (rs st))\<rparr>)"
  by (simp add: kept_def getbyte_bij)

lemma kept_getword: "kept st (st\<lparr>rs := snd (alt_arc4_getword (rs st))\<rparr>)"
  by (simp add: kept_def getword_bij)

lemma kept_random: "alt_arc4random e st = Inr (v, st') \<Longrightarrow> kept st st'"
proof -
  assume a: "alt_arc4random e st = Inr (v, st')"
  then obtain st1 where
    s: "alt_arc4_stir_if_needed e (st\<lparr>alt_arc4_count := alt_arc4_count st - 4\<rparr>) = Inr st1" and
    e: "st' = st1\<lparr>rs := snd (alt_arc4_getword (rs st1))\<rparr>"
    unfolding random_eq by (auto split: sum.splits)
  from kept_stir_if_needed[OF s] have "kept st st1" by (simp add: kept_count)
  with kept_getword[of st1] e show ?thesis by (auto intro: kept_trans)
qed

lemma kept_buf_loop: "buf_loop e n st = Inr (out, st') \<Longrightarrow> kept st st'"
proof (induction n arbitrary: st out st')
  case 0
  then show ?case by (simp add: kept_refl)
next
  case (Suc n)
  from Suc.prems obtain st2 low where
    s: "(if alt_arc4_count st \<le> 1 then alt_arc4_stir e (st\<lparr>alt_arc4_count := alt_arc4_count st - 1\<rparr>)
            else Inr (st\<lparr>alt_arc4_count := alt_arc4_count st - 1\<rparr>)) = Inr st2" and
    l: "buf_loop e n (st2\<lparr>rs := snd (alt_arc4_getbyte (rs st2))\<rparr>) = Inr (low, st')"
    unfolding buf_loop_Suc by (auto split: sum.splits)
  have "kept (st\<lparr>alt_arc4_count := alt_arc4_count st - 1\<rparr>) st2"
    using s kept_stir[of e "st\<lparr>alt_arc4_count := alt_arc4_count st - 1\<rparr>" st2]
    by (auto split: if_splits simp: kept_refl)
  then have "kept st st2" by (simp add: kept_count)
  with kept_getbyte[of st2] Suc.IH[OF l] show ?case by (blast intro: kept_trans)
qed

lemma kept_buf: "alt_arc4random_buf e n st = Inr (out, st') \<Longrightarrow> kept st st'"
  unfolding alt_arc4random_buf_def
  by (auto split: sum.splits dest!: kept_stir_if_needed kept_buf_loop intro: kept_trans)

subsection \<open>The calls return\<close>

lemma random_ok:
  "can_open e st \<Longrightarrow> \<exists>v st'. alt_arc4random e st = Inr (v, st')"
proof -
  assume c: "can_open e st"
  have "\<exists>st1. alt_arc4_stir_if_needed e (st\<lparr>alt_arc4_count := alt_arc4_count st - 4\<rparr>) = Inr st1"
    using stir_ok[of e "st\<lparr>alt_arc4_count := alt_arc4_count st - 4, alt_arc4_stir_pid := getpid e\<rparr>"] c
    unfolding alt_arc4_stir_if_needed_def Let_def by simp
  then show ?thesis unfolding random_eq by auto
qed

lemma buf_ok:
  "can_open e st \<Longrightarrow> \<exists>out st'. alt_arc4random_buf e n st = Inr (out, st')"
proof -
  assume c: "can_open e st"
  have "\<exists>st1. alt_arc4_stir_if_needed e st = Inr st1 \<and> can_open e st1"
  proof (cases "alt_arc4_count st \<le> 0 \<or> \<not> rs_initialized st \<or> alt_arc4_stir_pid st \<noteq> getpid e")
    case True
    from c have "can_open e (st\<lparr>alt_arc4_stir_pid := getpid e\<rparr>)" by simp
    from stir_ok[OF this] obtain st1 where
      s: "alt_arc4_stir e (st\<lparr>alt_arc4_stir_pid := getpid e\<rparr>) = Inr st1" by blast
    from stir_can_open[OF s] s True show ?thesis by (simp add: stir_if_needed_trigger)
  next
    case False
    with c show ?thesis by (simp add: stir_if_needed_quiet)
  qed
  then obtain st1 where s: "alt_arc4_stir_if_needed e st = Inr st1" and c1: "can_open e st1" by blast
  from buf_loop_ok[OF c1, of n] s show ?thesis unfolding alt_arc4random_buf_def by simp
qed

subsection \<open>The sample run\<close>

lemma first_use_facts:
  "rs_initialized first_use" "random_data_source_fd first_use = 3"
  "alt_arc4_count first_use = 1600000" "alt_arc4_stir_pid first_use = 42"
  "reads first_use = [(3, 128)]"
proof -
  let ?st0 = "initial_state\<lparr>alt_arc4_count := alt_arc4_count initial_state - 4,
                            alt_arc4_stir_pid := getpid mock_env\<rparr>"
  have i: "\<not> rs_initialized ?st0" "random_data_source_fd ?st0 = - 1" "reads ?st0 = []"
    "alt_arc4_stir_pid ?st0 = 42"
    by (simp_all add: initial_state_def mock_env_def)
  obtain st1 where s: "alt_arc4_stir mock_env ?st0 = Inr st1"
    using stir_ok[OF mock_can_open] by blast
  have f: "first_use = st1\<lparr>rs := snd (alt_arc4_getword (rs st1))\<rparr>"
    unfolding first_use_def using s i(1)
    by (subst random_trigger) (simp_all add: initial_state_def)
  have fd: "random_data_source_fd st1 = 3"
    using s i(1,2) by (cases rule: stir_cases[of mock_env ?st0]) (auto simp: mock_dev_open)
  show "rs_initialized first_use" unfolding f using stir_Inr(1)[OF s] by simp
  show "random_data_source_fd first_use = 3" unfolding f using fd by simp
  show "alt_arc4_count first_use = 1600000" unfolding f using stir_Inr(2)[OF s] by simp
  show "alt_arc4_stir_pid first_use = 42" unfolding f using stir_Inr(3)[OF s] i(4) by simp
  show "reads first_use = [(3, 128)]" unfolding f using stir_reads[OF s] fd i(3) by simp
qed

lemma closed_after_use_eq: "closed_after_use = first_use\<lparr>random_data_source_fd := - 1\<rparr>"
  by (simp add: closed_after_use_def alt_arc4random_close_def first_use_facts mock_env_def)

subsection \<open>The rejection loop\<close>

lemma first_accepted_0:
  "first_accepted e minv 0 st r st' \<longleftrightarrow> alt_arc4random e st = Inr (r, st') \<and> minv \<le> r"
  by (simp add: first_accepted_def)

lemma first_accepted_Suc:
  "first_accepted e minv (Suc k) st r st' \<longleftrightarrow>
     (\<exists>x st1. alt_arc4random e st = Inr (x, st1) \<and> x < minv \<and> first_accepted e minv k st1 r st')"
proof
  assume a: "first_accepted e minv (Suc k) st r st'"
  then have "case nth_draw e 0 st of Inl x \<Rightarrow> False | Inr (x, st1) \<Rightarrow> x < minv"
    unfolding first_accepted_def by blast
  then obtain x st1 where r: "alt_arc4random e st = Inr (x, st1)" and x: "x < minv"
    by (auto split: sum.splits)
  have "first_accepted e minv k st1 r st'"
    unfolding first_accepted_def
  proof (intro conjI allI impI)
    fix m assume "m < k"
    then have "Suc m < Suc k" by simp
    with a have "case nth_draw e (Suc m) st of Inl x \<Rightarrow> False | Inr (x, st1) \<Rightarrow> x < minv"
      unfolding first_accepted_def by blast
    then show "case nth_draw e m st1 of Inl x \<Rightarrow> False | Inr (x, st1) \<Rightarrow> x < minv"
      using r by simp
  next
    show "nth_draw e k st1 = Inr (r, st')" using a r by (simp add: first_accepted_def)
    show "minv \<le> r" using a by (simp add: first_accepted_def)
  qed
  with r x show "\<exists>x st1. alt_arc4random e st = Inr (x, st1) \<and> x < minv \<and> first_accepted e minv k st1 r st'"
    by blast
next
  assume "\<exists>x st1. alt_arc4random e st = Inr (x, st1) \<and> x < minv \<and> first_accepted e minv k st1 r st'"
  then obtain x st1 where r: "alt_arc4random e st = Inr (x, st1)" and x: "x < minv"
    and f: "first_accepted e minv k st1 r st'" by blast
  show "first_accepted e minv (Suc k) st r st'"
    unfolding first_accepted_def
  proof (intro conjI allI impI)
    fix m assume m: "m < Suc k"
    show "case nth_draw e m st of Inl x \<Rightarrow> False | Inr (x, st1) \<Rightarrow> x < minv"
    proof (cases m)
      case 0
      then show ?thesis using r x by simp
    next
      case (Suc m')
      with m have "m' < k" by simp
      with f have "case nth_draw e m' st1 of Inl x \<Rightarrow> False | Inr (x, st1) \<Rightarrow> x < minv"
        unfolding first_accepted_def by blast
      then show ?thesis using Suc r by simp
    qed
  next
    show "nth_draw e (Suc k) st = Inr (r, st')" using f r by (simp add: first_accepted_def)
    show "minv \<le> r" using f by (simp add: first_accepted_def)
  qed
qed

lemma uniform_loop_first:
  "first_accepted e minv k st r st' \<Longrightarrow> uniform_loop e minv st = Some (Inr (r, st'))"
proof (induction k arbitrary: st)
  case 0
  then show ?case by (subst uniform_loop.simps) (simp add: first_accepted_0)
next
  case (Suc k)
  then obtain x st1 where r: "alt_arc4random e st = Inr (x, st1)" and x: "x < minv"
    and f: "first_accepted e minv k st1 r st'" unfolding first_accepted_Suc by blast
  from Suc.IH[OF f] r x show ?case
    by (subst uniform_loop.simps) (simp add: not_le[symmetric])
qed

lemma uniform_loop_Some:
  assumes "uniform_loop e minv st = Some y"
  shows "case y of Inl x \<Rightarrow> True | Inr (r, st') \<Rightarrow> \<exists>k. first_accepted e minv k st r st'"
proof (rule uniform_loop.raw_induct[OF _ assms])
  fix f e minv st y
  assume IH: "\<And>e minv st y. f e minv st = Some y \<Longrightarrow>
                (case y of Inl x \<Rightarrow> True | Inr (r, st') \<Rightarrow> \<exists>k. first_accepted e minv k st r st')"
    and eq: "(case alt_arc4random e st of
                Inl x \<Rightarrow> Some (Inl x)
              | Inr (r, st') \<Rightarrow> if minv \<le> r then Some (Inr (r, st')) else f e minv st') = Some y"
  show "case y of Inl x \<Rightarrow> True | Inr (r, st') \<Rightarrow> \<exists>k. first_accepted e minv k st r st'"
  proof (cases "alt_arc4random e st")
    case (Inl x)
    with eq show ?thesis by auto
  next
    case (Inr p)
    obtain x st1 where p: "p = (x, st1)" by (cases p)
    show ?thesis
    proof (cases "minv \<le> x")
      case True
      with eq Inr p have "y = Inr (x, st1)" by simp
      moreover have "first_accepted e minv 0 st x st1"
        using Inr p True by (simp add: first_accepted_0)
      ultimately show ?thesis by auto
    next
      case False
      with eq Inr p have fy: "f e minv st1 = Some y" by simp
      have d: "alt_arc4random e st = Inr (x, st1)" using Inr p by simp
      show ?thesis
      proof (cases y)
        case (Inl z)
        then show ?thesis by simp
      next
        case yr: (Inr q)
        obtain r st' where q: "q = (r, st')" by (cases q)
        from IH[OF fy] yr q obtain k where "first_accepted e minv k st1 r st'" by auto
        with d False have "first_accepted e minv (Suc k) st r st'"
          unfolding first_accepted_Suc by (auto simp: not_le)
        then show ?thesis using yr q by auto
      qed
    qed
  qed
qed

lemma uniform_loop_iff:
  "uniform_loop e minv st = Some (Inr (r, st')) \<longleftrightarrow> (\<exists>k. first_accepted e minv k st r st')"
  using uniform_loop_Some[of e minv st "Inr (r, st')"] uniform_loop_first[of e minv _ st r st']
  by auto

lemma uniform_min_either:
  "2 \<le> U \<Longrightarrow> (if u then uniform_min64 U else uniform_min32 U) = of_nat (2 ^ 32 mod unat U)"
proof -
  assume u: "2 \<le> U"
  then have nz: "U \<noteq> 0" by auto
  have v: "unat (uniform_min64 U) = 2 ^ 32 mod unat U" using uniform_min64_unat[OF nz] by simp
  have "unat (uniform_min64 U) < 2 ^ 32" using unat_32_bound[of "uniform_min64 U"] by simp
  then have "(2::nat) ^ 32 mod unat U < 2 ^ 32" using v by simp
  then have "unat (of_nat (2 ^ 32 mod unat U) :: 32 word) = 2 ^ 32 mod unat U"
    by (simp add: unat_of_nat)
  with v have "uniform_min64 U = of_nat (2 ^ 32 mod unat U)"
    by (simp only: word_unat_eq_iff)
  then show ?thesis using uniform_min_agree[OF u] by simp
qed

lemma uniform_eq:
  "2 \<le> U \<Longrightarrow>
     alt_arc4random_uniform u e U st =
       (case uniform_loop e (of_nat (2 ^ 32 mod unat U)) st of
          None \<Rightarrow> None
        | Some (Inl x) \<Rightarrow> Some (Inl x)
        | Some (Inr (r, st')) \<Rightarrow> Some (Inr (r mod U, st')))"
proof -
  assume u: "2 \<le> U"
  then have "\<not> U < 2" by (simp add: not_less)
  then show ?thesis
    unfolding alt_arc4random_uniform_def Let_def uniform_min_either[OF u] by simp
qed

lemma uniform_Some_iff:
  "2 \<le> U \<Longrightarrow>
     alt_arc4random_uniform u e U st = Some (Inr (v, st')) \<longleftrightarrow>
       (\<exists>k r. first_accepted e (of_nat (2 ^ 32 mod unat U)) k st r st' \<and> v = r mod U)"
proof -
  assume u: "2 \<le> U"
  have "alt_arc4random_uniform u e U st = Some (Inr (v, st')) \<longleftrightarrow>
          (\<exists>r. uniform_loop e (of_nat (2 ^ 32 mod unat U)) st = Some (Inr (r, st')) \<and> v = r mod U)"
    unfolding uniform_eq[OF u] by (auto split: option.splits sum.splits)
  then show ?thesis unfolding uniform_loop_iff by blast
qed

lemma getword_primed: "fst (alt_arc4_getword primed) = 0x0205070D"
  by (simp add: getword_eq getbyte_eq swap_entries_def primed_def)

subsection \<open>The mix-in and its length\<close>

lemma smod_nonneg: "1 \<le> d \<Longrightarrow> int n smod d = int n mod d"
  by (simp add: smod_int_alt_def sgn_if)

lemma addrandom_step_index:
  assumes "1 \<le> datlen" "datlen \<le> int (length dat)"
  shows "\<exists>r1. addrandom_step dat datlen n r0 = Inr r1 \<and>
              rs_j r1 = rs_j r0 + rs_s r0 (rs_i r0 + 1) + dat ! nat (int n mod datlen) \<and>
              0 \<le> int n mod datlen \<and> int n mod datlen < datlen \<and>
              nat (int n mod datlen) < length dat"
proof -
  have m: "0 \<le> int n mod datlen" "int n mod datlen < datlen" using assms(1) by simp_all
  obtain r1 where s: "addrandom_step dat datlen n r0 = Inr r1"
    using addrandom_step_ok[OF assms] by blast
  from addrandom_step_Inr[OF s] have "rs_j r1 = rs_j r0 + rs_s r0 (rs_i r0 + 1) + dat ! nat (int n mod datlen)"
    by (simp add: smod_nonneg[OF assms(1)])
  with s m assms(2) show ?thesis by auto
qed

lemma public_addrandom_div0:
  "can_open e st \<Longrightarrow> alt_arc4random_addrandom e dat 0 st = Inl DIV_BY_ZERO"
proof -
  assume c: "can_open e st"
  have z: "\<And>r. alt_arc4_addrandom dat 0 r = Inl DIV_BY_ZERO"
    by (simp add: alt_arc4_addrandom_div0)
  show ?thesis
  proof (cases "rs_initialized st")
    case True
    then show ?thesis unfolding alt_arc4random_addrandom_def by (simp add: z)
  next
    case False
    from stir_ok[OF c] obtain st1 where "alt_arc4_stir e st = Inr st1" by blast
    with False show ?thesis unfolding alt_arc4random_addrandom_def by (simp add: z)
  qed
qed

subsection \<open>Runs of public calls\<close>

lemma permutation_table_bij: "permutation_table t = bij t"
  unfolding permutation_table_def bij_iff ..

lemma kept_table_inv: "kept st st' \<Longrightarrow> table_inv st \<Longrightarrow> table_inv st'"
  by (simp add: kept_def table_inv_def permutation_table_bij)

lemma nth_draw_kept: "nth_draw e k st = Inr (r, st') \<Longrightarrow> kept st st'"
proof (induction k arbitrary: st)
  case 0
  then show ?case by (simp add: kept_random)
next
  case (Suc k)
  then obtain x st1 where r: "alt_arc4random e st = Inr (x, st1)"
    and n: "nth_draw e k st1 = Inr (r, st')" by (auto split: sum.splits)
  from kept_random[OF r] Suc.IH[OF n] show ?case by (rule kept_trans)
qed

lemma uniform_kept: "alt_arc4random_uniform u e U st = Some (Inr (v, st')) \<Longrightarrow> kept st st'"
proof (cases "U < 2")
  case True
  assume "alt_arc4random_uniform u e U st = Some (Inr (v, st'))"
  with True show ?thesis by (simp add: alt_arc4random_uniform_def kept_refl)
next
  case False
  assume a: "alt_arc4random_uniform u e U st = Some (Inr (v, st'))"
  from False have "2 \<le> U" by (simp add: not_less)
  from a[unfolded uniform_Some_iff[OF this]] show ?thesis
    by (auto simp: first_accepted_def dest: nth_draw_kept)
qed

lemma public_addrandom_table_inv:
  assumes "alt_arc4random_addrandom e dat datlen st = Inr st'" "table_inv st"
  shows "table_inv st'"
proof -
  from assms(1) obtain st1 r where
    s: "(if \<not> rs_initialized st then alt_arc4_stir e st else Inr st) = Inr st1" and
    a: "alt_arc4_addrandom dat datlen (rs st1) = Inr r" and
    e: "st' = st1\<lparr>rs := r\<rparr>"
    unfolding alt_arc4random_addrandom_def by (auto split: sum.splits)
  have "rs_initialized st1 \<and> bij (rs_s (rs st1))"
  proof (cases "rs_initialized st")
    case True
    with s assms(2) show ?thesis by (simp add: table_inv_def permutation_table_bij)
  next
    case False
    with s have "alt_arc4_stir e st = Inr st1" by simp
    from stir_Inr(1,6)[OF this] False show ?thesis by simp
  qed
  with alt_arc4_addrandom_bij[OF a] e show ?thesis
    by (simp add: table_inv_def permutation_table_bij)
qed

lemma public_call_table_inv:
  "public_call u e c st = Some (Inr st') \<Longrightarrow> table_inv st \<Longrightarrow> table_inv st'"
proof (cases c)
  case Stir
  assume "public_call u e c st = Some (Inr st')" "table_inv st"
  with Stir show ?thesis
    by (auto simp: alt_arc4random_stir_def dest: kept_stir kept_table_inv)
next
  case (Addrandom dat datlen)
  assume "public_call u e c st = Some (Inr st')" "table_inv st"
  with Addrandom show ?thesis by (auto dest: public_addrandom_table_inv)
next
  case Random
  assume "public_call u e c st = Some (Inr st')" "table_inv st"
  with Random show ?thesis by (auto split: sum.splits dest: kept_random kept_table_inv)
next
  case (Buf n)
  assume "public_call u e c st = Some (Inr st')" "table_inv st"
  with Buf show ?thesis by (auto split: sum.splits dest: kept_buf kept_table_inv)
next
  case (Uniform U)
  assume "public_call u e c st = Some (Inr st')" "table_inv st"
  with Uniform show ?thesis
    by (auto split: option.splits sum.splits dest: uniform_kept kept_table_inv)
next
  case Close
  assume "public_call u e c st = Some (Inr st')" "table_inv st"
  with Close show ?thesis
    by (auto simp: alt_arc4random_close_def table_inv_def split: if_splits)
qed

lemma run_table_inv:
  "run u calls st = Some (Inr st') \<Longrightarrow> table_inv st \<Longrightarrow> table_inv st'"
proof (induction calls arbitrary: st)
  case Nil
  then show ?case by simp
next
  case (Cons ec rest)
  obtain e c where ec: "ec = (e, c)" by (cases ec)
  from Cons.prems(1) ec obtain st1 where
    p: "public_call u e c st = Some (Inr st1)" and r: "run u rest st1 = Some (Inr st')"
    by (auto split: option.splits sum.splits)
  from public_call_table_inv[OF p Cons.prems(2)] Cons.IH[OF r] show ?case by simp
qed

lemma run_append:
  "run u (calls1 @ calls2) st = Some (Inr st'') \<Longrightarrow>
     \<exists>st'. run u calls1 st = Some (Inr st') \<and> run u calls2 st' = Some (Inr st'')"
proof (induction calls1 arbitrary: st)
  case Nil
  then show ?case by simp
next
  case (Cons ec rest)
  obtain e c where ec: "ec = (e, c)" by (cases ec)
  from Cons.prems ec obtain st1 where
    p: "public_call u e c st = Some (Inr st1)" and
    r: "run u (rest @ calls2) st1 = Some (Inr st'')"
    by (auto split: option.splits sum.splits)
  from Cons.IH[OF r] p ec show ?case by simp
qed

lemma table_inv_initial: "table_inv initial_state"
  by (simp add: table_inv_def initial_state_def)

subsection \<open>The range of the counter\<close>

lemma stir_count_in_range: "alt_arc4_stir e st = Inr st' \<Longrightarrow> count_in_range st'"
  using stir_Inr(2)[of e st st'] by (simp add: count_in_range_def)

lemma stir_if_needed_count:
  assumes "alt_arc4_stir_if_needed e st = Inr st'" "alt_arc4_count st \<le> 1600000"
  shows "count_in_range st'"
proof (cases "alt_arc4_count st \<le> 0 \<or> \<not> rs_initialized st \<or> alt_arc4_stir_pid st \<noteq> getpid e")
  case True
  with assms(1) have "alt_arc4_stir e (st\<lparr>alt_arc4_stir_pid := getpid e\<rparr>) = Inr st'"
    by (simp add: stir_if_needed_trigger)
  then show ?thesis by (rule stir_count_in_range)
next
  case False
  with assms(1) have "st' = st" by (simp add: stir_if_needed_quiet)
  with False assms(2) show ?thesis by (simp add: count_in_range_def)
qed

lemma random_count:
  assumes "alt_arc4random e st = Inr (v, st')" "count_in_range st"
  shows "count_in_range st'"
proof -
  from assms(1) obtain st1 where
    s: "alt_arc4_stir_if_needed e (st\<lparr>alt_arc4_count := alt_arc4_count st - 4\<rparr>) = Inr st1" and
    e: "st' = st1\<lparr>rs := snd (alt_arc4_getword (rs st1))\<rparr>"
    unfolding random_eq by (auto split: sum.splits)
  from assms(2) have "alt_arc4_count (st\<lparr>alt_arc4_count := alt_arc4_count st - 4\<rparr>) \<le> 1600000"
    by (simp add: count_in_range_def)
  from stir_if_needed_count[OF s this] e show ?thesis by (simp add: count_in_range_def)
qed

lemma buf_loop_count:
  "buf_loop e n st = Inr (out, st') \<Longrightarrow> count_in_range st \<Longrightarrow> count_in_range st'"
proof (induction n arbitrary: st out st')
  case 0
  then show ?case by simp
next
  case (Suc n)
  from Suc.prems(1) obtain st2 low where
    s: "(if alt_arc4_count st \<le> 1 then alt_arc4_stir e (st\<lparr>alt_arc4_count := alt_arc4_count st - 1\<rparr>)
            else Inr (st\<lparr>alt_arc4_count := alt_arc4_count st - 1\<rparr>)) = Inr st2" and
    l: "buf_loop e n (st2\<lparr>rs := snd (alt_arc4_getbyte (rs st2))\<rparr>) = Inr (low, st')"
    unfolding buf_loop_Suc by (auto split: sum.splits)
  have "count_in_range st2"
  proof (cases "alt_arc4_count st \<le> 1")
    case True
    with s show ?thesis by (simp add: stir_count_in_range)
  next
    case False
    with s Suc.prems(2) show ?thesis by (auto simp: count_in_range_def)
  qed
  then have "count_in_range (st2\<lparr>rs := snd (alt_arc4_getbyte (rs st2))\<rparr>)"
    by (simp add: count_in_range_def)
  from Suc.IH[OF l this] show ?case .
qed

lemma buf_count:
  assumes "alt_arc4random_buf e n st = Inr (out, st')" "count_in_range st"
  shows "count_in_range st'"
proof -
  from assms(1) obtain st1 where
    s: "alt_arc4_stir_if_needed e st = Inr st1" and l: "buf_loop e n st1 = Inr (out, st')"
    unfolding alt_arc4random_buf_def by (auto split: sum.splits)
  from assms(2) have "alt_arc4_count st \<le> 1600000" by (simp add: count_in_range_def)
  from buf_loop_count[OF l stir_if_needed_count[OF s this]] show ?thesis .
qed

lemma nth_draw_count:
  "nth_draw e k st = Inr (r, st') \<Longrightarrow> count_in_range st \<Longrightarrow> count_in_range st'"
proof (induction k arbitrary: st)
  case 0
  then show ?case by (simp add: random_count)
next
  case (Suc k)
  then obtain x st1 where r: "alt_arc4random e st = Inr (x, st1)"
    and n: "nth_draw e k st1 = Inr (r, st')" by (auto split: sum.splits)
  from Suc.IH[OF n random_count[OF r Suc.prems(2)]] show ?case .
qed

lemma uniform_count:
  assumes "alt_arc4random_uniform u e U st = Some (Inr (v, st'))" "count_in_range st"
  shows "count_in_range st'"
proof (cases "U < 2")
  case True
  with assms show ?thesis by (simp add: alt_arc4random_uniform_def)
next
  case False
  then have "2 \<le> U" by (simp add: not_less)
  from assms(1)[unfolded uniform_Some_iff[OF this]] assms(2) show ?thesis
    by (auto simp: first_accepted_def dest: nth_draw_count)
qed

lemma public_call_count:
  assumes "public_call u e c st = Some (Inr st')" "count_in_range st"
  shows "count_in_range st'"
proof (cases c)
  case Stir
  with assms show ?thesis by (auto simp: alt_arc4random_stir_def dest: stir_count_in_range)
next
  case (Addrandom dat datlen)
  with assms(1) obtain st1 r where
    s: "(if \<not> rs_initialized st then alt_arc4_stir e st else Inr st) = Inr st1" and
    e: "st' = st1\<lparr>rs := r\<rparr>"
    unfolding alt_arc4random_addrandom_def by (auto simp: alt_arc4random_addrandom_def split: sum.splits)
  have "count_in_range st1" using s assms(2) by (auto split: if_splits dest: stir_count_in_range)
  with e show ?thesis by (simp add: count_in_range_def)
next
  case Random
  with assms show ?thesis by (auto split: sum.splits dest: random_count)
next
  case (Buf n)
  with assms show ?thesis by (auto split: sum.splits dest: buf_count)
next
  case (Uniform U)
  with assms show ?thesis by (auto split: option.splits sum.splits dest: uniform_count)
next
  case Close
  with assms show ?thesis
    by (auto simp: alt_arc4random_close_def count_in_range_def split: if_splits)
qed

lemma run_count_in_range:
  "run u calls st = Some (Inr st') \<Longrightarrow> count_in_range st \<Longrightarrow> count_in_range st'"
proof (induction calls arbitrary: st)
  case Nil
  then show ?case by simp
next
  case (Cons ec rest)
  obtain e c where ec: "ec = (e, c)" by (cases ec)
  from Cons.prems(1) ec obtain st1 where
    p: "public_call u e c st = Some (Inr st1)" and r: "run u rest st1 = Some (Inr st')"
    by (auto split: option.splits sum.splits)
  from Cons.IH[OF r public_call_count[OF p Cons.prems(2)]] show ?case .
qed

lemma reachable_count_in_range:
  "run u calls initial_state = Some (Inr st') \<Longrightarrow> count_in_range st'"
  by (erule run_count_in_range) (simp add: count_in_range_def initial_state_def)

subsection \<open>The mix-in with a negative length\<close>

lemma smod_abs: "d \<noteq> 0 \<Longrightarrow> int n smod d = int n mod \<bar>d\<bar>"
  by (simp add: smod_int_alt_def sgn_if)

lemma smod_abs_range: "d \<noteq> 0 \<Longrightarrow> 0 \<le> int n smod d \<and> int n smod d < \<bar>d\<bar>"
  by (simp add: smod_abs)

lemma addrandom_step_index_abs:
  assumes "datlen \<noteq> 0" "\<bar>datlen\<bar> \<le> int (length dat)"
  shows "\<exists>r1. addrandom_step dat datlen n r0 = Inr r1 \<and>
              rs_j r1 = rs_j r0 + rs_s r0 (rs_i r0 + 1) + dat ! nat (int n mod \<bar>datlen\<bar>) \<and>
              0 \<le> int n mod \<bar>datlen\<bar> \<and> int n mod \<bar>datlen\<bar> < \<bar>datlen\<bar> \<and>
              nat (int n mod \<bar>datlen\<bar>) < length dat"
proof -
  have m: "0 \<le> int n mod \<bar>datlen\<bar>" "int n mod \<bar>datlen\<bar> < \<bar>datlen\<bar>"
    using assms(1) by simp_all
  have k: "int n smod datlen = int n mod \<bar>datlen\<bar>" by (rule smod_abs[OF assms(1)])
  have "\<not> (int n smod datlen < 0 \<or> int (length dat) \<le> int n smod datlen)"
    unfolding k using m assms(2) by simp
  then obtain r1 where s: "addrandom_step dat datlen n r0 = Inr r1"
    using assms(1) unfolding addrandom_step_def Let_def by simp
  from addrandom_step_Inr[OF s]
  have "rs_j r1 = rs_j r0 + rs_s r0 (rs_i r0 + 1) + dat ! nat (int n mod \<bar>datlen\<bar>)"
    by (simp add: k)
  with s m assms(2) show ?thesis by auto
qed

lemma addrandom_loop_ok_abs:
  "datlen \<noteq> 0 \<Longrightarrow> \<bar>datlen\<bar> \<le> int (length dat) \<Longrightarrow>
     \<exists>r'. addrandom_loop dat datlen n r = Inr r'"
proof (induction dat datlen n r rule: addrandom_loop.induct)
  case (1 dat datlen n r)
  show ?case
  proof (cases "n < 256")
    case True
    obtain r1 where s: "addrandom_step dat datlen n r = Inr r1"
      using addrandom_step_index_abs[OF "1.prems"] by blast
    from "1.IH"[OF True s "1.prems"] obtain r' where
      "addrandom_loop dat datlen (Suc n) r1 = Inr r'" by blast
    with s True show ?thesis
      by (subst addrandom_loop.simps) simp
  next
    case False
    then show ?thesis by (subst addrandom_loop.simps) simp
  qed
qed

lemma alt_arc4_addrandom_ok_abs:
  "datlen \<noteq> 0 \<Longrightarrow> \<bar>datlen\<bar> \<le> int (length dat) \<Longrightarrow>
     \<exists>r'. alt_arc4_addrandom dat datlen r = Inr r'"
  using addrandom_loop_ok_abs[of datlen dat 0 "r\<lparr>rs_i := rs_i r - 1\<rparr>"]
  unfolding alt_arc4_addrandom_def by auto

subsection \<open>Reseeds with and without a handle\<close>




subsection \<open>The buffer loop, round by round\<close>

lemma funpow_getbyte_Suc:
  "((\<lambda>r. snd (alt_arc4_getbyte r)) ^^ Suc n) r =
     ((\<lambda>r. snd (alt_arc4_getbyte r)) ^^ n) (snd (alt_arc4_getbyte r))"
  by (simp only: funpow_Suc_right o_apply)

lemma buf_loop_quiet:
  "int n < alt_arc4_count st \<Longrightarrow>
     buf_loop e n st =
       Inr (rev (keystream n (rs st)),
            st\<lparr>alt_arc4_count := alt_arc4_count st - int n,
                rs := ((\<lambda>r. snd (alt_arc4_getbyte r)) ^^ n) (rs st)\<rparr>)"
proof (induction n arbitrary: st)
  case 0
  then show ?case by simp
next
  case (Suc n)
  let ?st1 = "st\<lparr>alt_arc4_count := alt_arc4_count st - 1, rs := snd (alt_arc4_getbyte (rs st))\<rparr>"
  from Suc.prems have c: "\<not> alt_arc4_count st \<le> 1" by simp
  from Suc.prems have "int n < alt_arc4_count ?st1" by simp
  from Suc.IH[OF this]
  have l: "buf_loop e n ?st1 =
       Inr (rev (keystream n (snd (alt_arc4_getbyte (rs st)))),
            st\<lparr>alt_arc4_count := alt_arc4_count st - 1 - int n,
                rs := ((\<lambda>r. snd (alt_arc4_getbyte r)) ^^ n) (snd (alt_arc4_getbyte (rs st)))\<rparr>)"
    by simp
  have a: "alt_arc4_count st - 1 - int n = alt_arc4_count st - int (Suc n)" by simp
  show ?case
    unfolding buf_loop_Suc funpow_getbyte_Suc using c l by (simp add: a del: funpow.simps)
qed

lemma buf_quiet:
  "int n < alt_arc4_count st \<Longrightarrow> rs_initialized st \<Longrightarrow> alt_arc4_stir_pid st = getpid e \<Longrightarrow>
     alt_arc4random_buf e n st =
       Inr (rev (keystream n (rs st)),
            st\<lparr>alt_arc4_count := alt_arc4_count st - int n,
                rs := ((\<lambda>r. snd (alt_arc4_getbyte r)) ^^ n) (rs st)\<rparr>)"
proof -
  assume a: "int n < alt_arc4_count st" "rs_initialized st" "alt_arc4_stir_pid st = getpid e"
  then have "0 < alt_arc4_count st" by simp
  with a show ?thesis
    unfolding alt_arc4random_buf_def by (simp add: stir_if_needed_quiet buf_loop_quiet)
qed

lemma loop_reseeds_first: "c \<le> 1 \<Longrightarrow> loop_reseeds c (Suc n) = Suc (loop_reseeds 1600000 n)"
proof -
  assume c: "c \<le> 1"
  then have m: "max c 1 = 1" by simp
  show ?thesis
  proof (cases "n < 1600000")
    case True
    then show ?thesis by (simp add: loop_reseeds_def m)
  next
    case False
    then have "n div 1600000 = Suc ((n - 1600000) div 1600000)"
      by (simp add: le_div_geq)
    with False show ?thesis by (simp add: loop_reseeds_def m)
  qed
qed

lemma loop_reseeds_later: "1 < c \<Longrightarrow> loop_reseeds c (Suc n) = loop_reseeds (c - 1) n"
proof -
  assume c: "1 < c"
  then have m: "max c 1 = c" "max (c - 1) 1 = c - 1" by simp_all
  have s: "Suc n - nat c = n - nat (c - 1)" using c by (simp add: nat_diff_distrib)
  have l: "(int (Suc n) < c) = (int n < c - 1)" by auto
  show ?thesis unfolding loop_reseeds_def m s l ..
qed

lemma loop_count_first: "c \<le> 1 \<Longrightarrow> loop_count_after c (Suc n) = loop_count_after 1600000 n"
proof -
  assume c: "c \<le> 1"
  then have m: "max c 1 = 1" by simp
  show ?thesis
  proof (cases "n < 1600000")
    case True
    then show ?thesis by (simp add: loop_count_after_def m)
  next
    case False
    then have "n mod 1600000 = (n - 1600000) mod 1600000"
      by (simp add: le_mod_geq)
    with False show ?thesis by (simp add: loop_count_after_def m)
  qed
qed

lemma loop_count_later: "1 < c \<Longrightarrow> loop_count_after c (Suc n) = loop_count_after (c - 1) n"
proof -
  assume c: "1 < c"
  then have m: "max c 1 = c" "max (c - 1) 1 = c - 1" by simp_all
  have s: "Suc n - nat c = n - nat (c - 1)" using c by (simp add: nat_diff_distrib)
  have l: "(int (Suc n) < c) = (int n < c - 1)" by auto
  have d: "c - int (Suc n) = c - 1 - int n" by simp
  show ?thesis unfolding loop_count_after_def m s l d ..
qed

lemma buf_loop_reseeds:
  "can_open e st \<Longrightarrow>
     \<exists>out st'. buf_loop e n st = Inr (out, st') \<and> length out = n \<and>
       length (reads st') = length (reads st) + loop_reseeds (alt_arc4_count st) n \<and>
       alt_arc4_count st' = loop_count_after (alt_arc4_count st) n"
proof (induction n arbitrary: st)
  case 0
  then show ?case by (simp add: loop_reseeds_def loop_count_after_def)
next
  case (Suc n)
  show ?case
  proof (cases "alt_arc4_count st \<le> 1")
    case True
    from Suc.prems have "can_open e (st\<lparr>alt_arc4_count := alt_arc4_count st - 1\<rparr>)" by simp
    from stir_ok[OF this] obtain st1 where
      s: "alt_arc4_stir e (st\<lparr>alt_arc4_count := alt_arc4_count st - 1\<rparr>) = Inr st1" by blast
    let ?st2 = "st1\<lparr>rs := snd (alt_arc4_getbyte (rs st1))\<rparr>"
    have "can_open e ?st2" using stir_can_open[OF s] by simp
    from Suc.IH[OF this] obtain low st' where
      l: "buf_loop e n ?st2 = Inr (low, st')" "length low = n"
        "length (reads st') = length (reads ?st2) + loop_reseeds (alt_arc4_count ?st2) n"
        "alt_arc4_count st' = loop_count_after (alt_arc4_count ?st2) n"
      by blast
    have c: "alt_arc4_count ?st2 = 1600000" using stir_Inr(2)[OF s] by simp
    have r: "length (reads ?st2) = Suc (length (reads st))" using stir_Inr(4)[OF s] by simp
    have "buf_loop e (Suc n) st = Inr (low @ [fst (alt_arc4_getbyte (rs st1))], st')"
      unfolding buf_loop_Suc using True s l(1) by simp
    with l c r True show ?thesis
      by (simp add: loop_reseeds_first loop_count_first)
  next
    case False
    then have c1: "1 < alt_arc4_count st" by simp
    let ?st2 = "st\<lparr>alt_arc4_count := alt_arc4_count st - 1, rs := snd (alt_arc4_getbyte (rs st))\<rparr>"
    have "can_open e ?st2" using Suc.prems by simp
    from Suc.IH[OF this] obtain low st' where
      l: "buf_loop e n ?st2 = Inr (low, st')" "length low = n"
        "length (reads st') = length (reads ?st2) + loop_reseeds (alt_arc4_count ?st2) n"
        "alt_arc4_count st' = loop_count_after (alt_arc4_count ?st2) n"
      by blast
    have "buf_loop e (Suc n) st = Inr (low @ [fst (alt_arc4_getbyte (rs st))], st')"
      unfolding buf_loop_Suc using False l(1) by simp
    with l c1 show ?thesis
      by (simp add: loop_reseeds_later loop_count_later)
  qed
qed

lemma buf_loop_round_reseed:
  "alt_arc4_count st - 1 \<le> 0 \<Longrightarrow>
     (buf_loop e (Suc n) st = Inr (out, st')) =
       (\<exists>st1 low. alt_arc4_stir e (st\<lparr>alt_arc4_count := alt_arc4_count st - 1\<rparr>) = Inr st1 \<and>
          reads st1 = reads st @ [(random_data_source_fd st1, 128)] \<and>
          buf_loop e n (st1\<lparr>rs := snd (alt_arc4_getbyte (rs st1))\<rparr>) = Inr (low, st') \<and>
          out = low @ [fst (alt_arc4_getbyte (rs st1))])"
proof -
  assume "alt_arc4_count st - 1 \<le> 0"
  then have c: "alt_arc4_count st \<le> 1" by simp
  show ?thesis
  proof
    assume "buf_loop e (Suc n) st = Inr (out, st')"
    then obtain st1 low where
      s: "alt_arc4_stir e (st\<lparr>alt_arc4_count := alt_arc4_count st - 1\<rparr>) = Inr st1" and
      l: "buf_loop e n (st1\<lparr>rs := snd (alt_arc4_getbyte (rs st1))\<rparr>) = Inr (low, st')" and
      o: "out = low @ [fst (alt_arc4_getbyte (rs st1))]"
      unfolding buf_loop_Suc using c by (auto split: sum.splits)
    from stir_reads[OF s] s l o
    show "\<exists>st1 low. alt_arc4_stir e (st\<lparr>alt_arc4_count := alt_arc4_count st - 1\<rparr>) = Inr st1 \<and>
          reads st1 = reads st @ [(random_data_source_fd st1, 128)] \<and>
          buf_loop e n (st1\<lparr>rs := snd (alt_arc4_getbyte (rs st1))\<rparr>) = Inr (low, st') \<and>
          out = low @ [fst (alt_arc4_getbyte (rs st1))]"
      by auto
  next
    assume "\<exists>st1 low. alt_arc4_stir e (st\<lparr>alt_arc4_count := alt_arc4_count st - 1\<rparr>) = Inr st1 \<and>
          reads st1 = reads st @ [(random_data_source_fd st1, 128)] \<and>
          buf_loop e n (st1\<lparr>rs := snd (alt_arc4_getbyte (rs st1))\<rparr>) = Inr (low, st') \<and>
          out = low @ [fst (alt_arc4_getbyte (rs st1))]"
    then show "buf_loop e (Suc n) st = Inr (out, st')"
      unfolding buf_loop_Suc using c by auto
  qed
qed

lemma buf_loop_round_quiet:
  "0 < alt_arc4_count st - 1 \<Longrightarrow>
     (buf_loop e (Suc n) st = Inr (out, st')) =
       (\<exists>low. buf_loop e n (st\<lparr>alt_arc4_count := alt_arc4_count st - 1,
                                 rs := snd (alt_arc4_getbyte (rs st))\<rparr>) = Inr (low, st') \<and>
          out = low @ [fst (alt_arc4_getbyte (rs st))])"
proof -
  assume "0 < alt_arc4_count st - 1"
  then have c: "\<not> alt_arc4_count st \<le> 1" by simp
  show ?thesis unfolding buf_loop_Suc using c by (auto split: sum.splits)
qed

subsection \<open>A released handle stays released\<close>

lemma kept_released: "kept st st' \<Longrightarrow> released st \<Longrightarrow> released st'"
  by (simp add: kept_def released_def)

lemma public_call_released:
  assumes "public_call u e c st = Some (Inr st')" "released st"
  shows "released st'"
proof (cases c)
  case Stir
  with assms show ?thesis
    by (auto simp: alt_arc4random_stir_def dest: kept_stir kept_released)
next
  case (Addrandom dat datlen)
  with assms show ?thesis
    by (auto simp: alt_arc4random_addrandom_def released_def split: sum.splits)
next
  case Random
  with assms show ?thesis by (auto split: sum.splits dest: kept_random kept_released)
next
  case (Buf n)
  with assms show ?thesis by (auto split: sum.splits dest: kept_buf kept_released)
next
  case (Uniform U)
  with assms show ?thesis
    by (auto split: option.splits sum.splits dest: uniform_kept kept_released)
next
  case Close
  with assms show ?thesis by (auto simp: alt_arc4random_close_def released_def)
qed

lemma run_released:
  "run u calls st = Some (Inr st') \<Longrightarrow> released st \<Longrightarrow> released st'"
proof (induction calls arbitrary: st)
  case Nil
  then show ?case by simp
next
  case (Cons ec rest)
  obtain e c where ec: "ec = (e, c)" by (cases ec)
  from Cons.prems(1) ec obtain st1 where
    p: "public_call u e c st = Some (Inr st1)" and r: "run u rest st1 = Some (Inr st')"
    by (auto split: option.splits sum.splits)
  from Cons.IH[OF r public_call_released[OF p Cons.prems(2)]] show ?case .
qed

lemma after_close_first_call:
  "rs_initialized st \<and> random_data_source_fd st \<noteq> - 1 \<and>
   close_result e (random_data_source_fd st) = 0 \<longrightarrow>
     fst (alt_arc4random_close e st) = 0 \<and>
     rs_initialized (snd (alt_arc4random_close e st)) \<and>
     random_data_source_fd (snd (alt_arc4random_close e st)) = - 1 \<and>
     (\<forall>u calls st'. run u calls (snd (alt_arc4random_close e st)) = Some (Inr st') \<longrightarrow>
        rs_initialized st' \<and> random_data_source_fd st' = - 1) \<and>
     (\<forall>e' v st'. alt_arc4random e' (snd (alt_arc4random_close e st)) = Inr (v, st') \<longrightarrow>
        rs_initialized st' \<and> random_data_source_fd st' = - 1) \<and>
     (\<forall>e' n out st'. alt_arc4random_buf e' n (snd (alt_arc4random_close e st)) = Inr (out, st') \<longrightarrow>
        rs_initialized st' \<and> random_data_source_fd st' = - 1) \<and>
     (\<forall>e'. 4 < alt_arc4_count st \<and> alt_arc4_stir_pid st = getpid e' \<longrightarrow>
        alt_arc4random e' (snd (alt_arc4random_close e st)) =
          Inr (fst (alt_arc4_getword (rs st)),
               st\<lparr>random_data_source_fd := - 1, alt_arc4_count := alt_arc4_count st - 4,
                   rs := snd (alt_arc4_getword (rs st))\<rparr>)) \<and>
     (\<forall>e' n. int n < alt_arc4_count st \<and> alt_arc4_stir_pid st = getpid e' \<longrightarrow>
        alt_arc4random_buf e' n (snd (alt_arc4random_close e st)) =
          Inr (rev (keystream n (rs st)),
               st\<lparr>random_data_source_fd := - 1, alt_arc4_count := alt_arc4_count st - int n,
                   rs := ((\<lambda>r. snd (alt_arc4_getbyte r)) ^^ n) (rs st)\<rparr>))"
proof
  assume a: "rs_initialized st \<and> random_data_source_fd st \<noteq> - 1 \<and>
   close_result e (random_data_source_fd st) = 0"
  then have c: "alt_arc4random_close e st = (0, st\<lparr>random_data_source_fd := - 1\<rparr>)"
    by (simp add: alt_arc4random_close_def)
  let ?c = "st\<lparr>random_data_source_fd := - 1\<rparr>"
  have i: "rs_initialized ?c" "random_data_source_fd ?c = - 1" using a by simp_all
  then have rel: "released ?c" by (simp add: released_def)
  have g: "\<And>u calls st'. run u calls ?c = Some (Inr st') \<Longrightarrow>
             rs_initialized st' \<and> random_data_source_fd st' = - 1"
    using run_released[OF _ rel] by (simp add: released_def)
  have r: "\<And>e' v st'. alt_arc4random e' ?c = Inr (v, st') \<Longrightarrow>
             rs_initialized st' \<and> random_data_source_fd st' = - 1"
    using kept_released[OF kept_random rel] by (simp add: released_def)
  have b: "\<And>e' n out st'. alt_arc4random_buf e' n ?c = Inr (out, st') \<Longrightarrow>
             rs_initialized st' \<and> random_data_source_fd st' = - 1"
    using kept_released[OF kept_buf rel] by (simp add: released_def)
  have q: "\<And>e'. 4 < alt_arc4_count st \<and> alt_arc4_stir_pid st = getpid e' \<Longrightarrow>
        alt_arc4random e' ?c =
          Inr (fst (alt_arc4_getword (rs st)),
               st\<lparr>random_data_source_fd := - 1, alt_arc4_count := alt_arc4_count st - 4,
                   rs := snd (alt_arc4_getword (rs st))\<rparr>)"
    using a by (subst random_quiet) simp_all
  have p: "\<And>e' n. int n < alt_arc4_count st \<and> alt_arc4_stir_pid st = getpid e' \<Longrightarrow>
        alt_arc4random_buf e' n ?c =
          Inr (rev (keystream n (rs st)),
               st\<lparr>random_data_source_fd := - 1, alt_arc4_count := alt_arc4_count st - int n,
                   rs := ((\<lambda>r. snd (alt_arc4_getbyte r)) ^^ n) (rs st)\<rparr>)"
    using a by (subst buf_quiet) simp_all
  show "fst (alt_arc4random_close e st) = 0 \<and>
     rs_initialized (snd (alt_arc4random_close e st)) \<and>
     random_data_source_fd (snd (alt_arc4random_close e st)) = - 1 \<and>
     (\<forall>u calls st'. run u calls (snd (alt_arc4random_close e st)) = Some (Inr st') \<longrightarrow>
        rs_initialized st' \<and> random_data_source_fd st' = - 1) \<and>
     (\<forall>e' v st'. alt_arc4random e' (snd (alt_arc4random_close e st)) = Inr (v, st') \<longrightarrow>
        rs_initialized st' \<and> random_data_source_fd st' = - 1) \<and>
     (\<forall>e' n out st'. alt_arc4random_buf e' n (snd (alt_arc4random_close e st)) = Inr (out, st') \<longrightarrow>
        rs_initialized st' \<and> random_data_source_fd st' = - 1) \<and>
     (\<forall>e'. 4 < alt_arc4_count st \<and> alt_arc4_stir_pid st = getpid e' \<longrightarrow>
        alt_arc4random e' (snd (alt_arc4random_close e st)) =
          Inr (fst (alt_arc4_getword (rs st)),
               st\<lparr>random_data_source_fd := - 1, alt_arc4_count := alt_arc4_count st - 4,
                   rs := snd (alt_arc4_getword (rs st))\<rparr>)) \<and>
     (\<forall>e' n. int n < alt_arc4_count st \<and> alt_arc4_stir_pid st = getpid e' \<longrightarrow>
        alt_arc4random_buf e' n (snd (alt_arc4random_close e st)) =
          Inr (rev (keystream n (rs st)),
               st\<lparr>random_data_source_fd := - 1, alt_arc4_count := alt_arc4_count st - int n,
                   rs := ((\<lambda>r. snd (alt_arc4_getbyte r)) ^^ n) (rs st)\<rparr>))"
    unfolding c fst_conv snd_conv
  proof (intro conjI allI impI)
    show "(0::int) = 0" by simp
    show "rs_initialized ?c" by (rule i(1))
    show "random_data_source_fd ?c = - 1" by (rule i(2))
  next
    fix u calls st' assume "run u calls ?c = Some (Inr st')"
    from g[OF this] show "rs_initialized st'" "random_data_source_fd st' = - 1" by simp_all
  next
    fix e' v st' assume "alt_arc4random e' ?c = Inr (v, st')"
    from r[OF this] show "rs_initialized st'" "random_data_source_fd st' = - 1" by simp_all
  next
    fix e' n out st' assume "alt_arc4random_buf e' n ?c = Inr (out, st')"
    from b[OF this] show "rs_initialized st'" "random_data_source_fd st' = - 1" by simp_all
  next
    fix e' :: env assume "4 < alt_arc4_count st \<and> alt_arc4_stir_pid st = getpid e'"
    from q[OF this] show "alt_arc4random e' ?c =
          Inr (fst (alt_arc4_getword (rs st)),
               st\<lparr>random_data_source_fd := - 1, alt_arc4_count := alt_arc4_count st - 4,
                   rs := snd (alt_arc4_getword (rs st))\<rparr>)" .
  next
    fix e' :: env and n assume "int n < alt_arc4_count st \<and> alt_arc4_stir_pid st = getpid e'"
    from p[OF this] show "alt_arc4random_buf e' n ?c =
          Inr (rev (keystream n (rs st)),
               st\<lparr>random_data_source_fd := - 1, alt_arc4_count := alt_arc4_count st - int n,
                   rs := ((\<lambda>r. snd (alt_arc4_getbyte r)) ^^ n) (rs st)\<rparr>)" .
  qed
qed

lemma released_use:
  assumes "released st0"
  shows "\<forall>u calls st'. run u calls st0 = Some (Inr st') \<longrightarrow> released st'"
    and "\<forall>e' :: env. 4 < alt_arc4_count st0 \<and> alt_arc4_stir_pid st0 = getpid e' \<longrightarrow>
        alt_arc4random e' st0 =
          Inr (fst (alt_arc4_getword (rs st0)),
               st0\<lparr>alt_arc4_count := alt_arc4_count st0 - 4,
                    rs := snd (alt_arc4_getword (rs st0))\<rparr>)"
    and "\<forall>(e' :: env) n. int n < alt_arc4_count st0 \<and> alt_arc4_stir_pid st0 = getpid e' \<longrightarrow>
        alt_arc4random_buf e' n st0 =
          Inr (rev (keystream n (rs st0)),
               st0\<lparr>alt_arc4_count := alt_arc4_count st0 - int n,
                    rs := ((\<lambda>r. snd (alt_arc4_getbyte r)) ^^ n) (rs st0)\<rparr>)"
proof -
  from assms have i: "rs_initialized st0" by (simp add: released_def)
  show "\<forall>u calls st'. run u calls st0 = Some (Inr st') \<longrightarrow> released st'"
    using run_released[OF _ assms] by blast
  show "\<forall>e' :: env. 4 < alt_arc4_count st0 \<and> alt_arc4_stir_pid st0 = getpid e' \<longrightarrow>
        alt_arc4random e' st0 =
          Inr (fst (alt_arc4_getword (rs st0)),
               st0\<lparr>alt_arc4_count := alt_arc4_count st0 - 4,
                    rs := snd (alt_arc4_getword (rs st0))\<rparr>)"
    using i by (simp add: random_quiet)
  show "\<forall>(e' :: env) n. int n < alt_arc4_count st0 \<and> alt_arc4_stir_pid st0 = getpid e' \<longrightarrow>
        alt_arc4random_buf e' n st0 =
          Inr (rev (keystream n (rs st0)),
               st0\<lparr>alt_arc4_count := alt_arc4_count st0 - int n,
                    rs := ((\<lambda>r. snd (alt_arc4_getbyte r)) ^^ n) (rs st0)\<rparr>)"
    using i by (simp add: buf_quiet)
qed

subsection \<open>Reseeds at the entry of the drawing calls\<close>

lemma entry_reseed:
  "(alt_arc4_count st - 4 \<le> 0 \<or> \<not> rs_initialized st \<or> alt_arc4_stir_pid st \<noteq> getpid e \<longrightarrow>
      (\<forall>v st'. alt_arc4random e st = Inr (v, st') \<longrightarrow>
         (\<exists>st1. alt_arc4_stir e (st\<lparr>alt_arc4_count := alt_arc4_count st - 4,
                                   alt_arc4_stir_pid := getpid e\<rparr>) = Inr st1 \<and>
                reads st1 = reads st @ [(random_data_source_fd st1, 128)] \<and>
                v = fst (alt_arc4_getword (rs st1)) \<and>
                st' = st1\<lparr>rs := snd (alt_arc4_getword (rs st1))\<rparr>))) \<and>
   (alt_arc4_count st \<le> 0 \<or> \<not> rs_initialized st \<or> alt_arc4_stir_pid st \<noteq> getpid e \<longrightarrow>
      (\<forall>out st'. alt_arc4random_buf e n st = Inr (out, st') \<longrightarrow>
         (\<exists>st1. alt_arc4_stir e (st\<lparr>alt_arc4_stir_pid := getpid e\<rparr>) = Inr st1 \<and>
                reads st1 = reads st @ [(random_data_source_fd st1, 128)] \<and>
                buf_loop e n st1 = Inr (out, st')))) \<and>
   (alt_arc4_count st - 1 \<le> 0 \<longrightarrow>
      (\<forall>out st'. buf_loop e (Suc n) st = Inr (out, st') \<longrightarrow>
         (\<exists>st1. alt_arc4_stir e (st\<lparr>alt_arc4_count := alt_arc4_count st - 1\<rparr>) = Inr st1 \<and>
                reads st1 = reads st @ [(random_data_source_fd st1, 128)] \<and>
                length out = Suc n \<and>
                out ! n = fst (alt_arc4_getbyte (rs st1))))) \<and>
   (can_open e st \<longrightarrow>
      (\<exists>v st'. alt_arc4random e st = Inr (v, st')) \<and>
      (\<exists>out st'. alt_arc4random_buf e n st = Inr (out, st')) \<and>
      (\<exists>out st'. buf_loop e (Suc n) st = Inr (out, st')))"
proof (intro conjI impI allI)
  fix v st'
  assume t: "alt_arc4_count st - 4 \<le> 0 \<or> \<not> rs_initialized st \<or> alt_arc4_stir_pid st \<noteq> getpid e"
    and r: "alt_arc4random e st = Inr (v, st')"
  from r obtain st1 where
    s: "alt_arc4_stir e (st\<lparr>alt_arc4_count := alt_arc4_count st - 4,
                            alt_arc4_stir_pid := getpid e\<rparr>) = Inr st1" and
    v: "v = fst (alt_arc4_getword (rs st1))" "st' = st1\<lparr>rs := snd (alt_arc4_getword (rs st1))\<rparr>"
    unfolding random_trigger[OF t] by (auto split: sum.splits)
  from stir_reads[OF s] s v
  show "\<exists>st1. alt_arc4_stir e (st\<lparr>alt_arc4_count := alt_arc4_count st - 4,
                                   alt_arc4_stir_pid := getpid e\<rparr>) = Inr st1 \<and>
                reads st1 = reads st @ [(random_data_source_fd st1, 128)] \<and>
                v = fst (alt_arc4_getword (rs st1)) \<and>
                st' = st1\<lparr>rs := snd (alt_arc4_getword (rs st1))\<rparr>"
    by simp
next
  fix out st'
  assume t: "alt_arc4_count st \<le> 0 \<or> \<not> rs_initialized st \<or> alt_arc4_stir_pid st \<noteq> getpid e"
    and b: "alt_arc4random_buf e n st = Inr (out, st')"
  from b obtain st1 where
    s: "alt_arc4_stir e (st\<lparr>alt_arc4_stir_pid := getpid e\<rparr>) = Inr st1" and
    l: "buf_loop e n st1 = Inr (out, st')"
    unfolding alt_arc4random_buf_def stir_if_needed_trigger[OF t] by (auto split: sum.splits)
  from stir_reads[OF s] s l
  show "\<exists>st1. alt_arc4_stir e (st\<lparr>alt_arc4_stir_pid := getpid e\<rparr>) = Inr st1 \<and>
                reads st1 = reads st @ [(random_data_source_fd st1, 128)] \<and>
                buf_loop e n st1 = Inr (out, st')"
    by simp
next
  fix out st'
  assume c: "alt_arc4_count st - 1 \<le> 0"
    and b: "buf_loop e (Suc n) st = Inr (out, st')"
  from c have c1: "alt_arc4_count st \<le> 1" by simp
  from b obtain st1 low where
    s: "alt_arc4_stir e (st\<lparr>alt_arc4_count := alt_arc4_count st - 1\<rparr>) = Inr st1" and
    l: "buf_loop e n (st1\<lparr>rs := snd (alt_arc4_getbyte (rs st1))\<rparr>) = Inr (low, st')" and
    o: "out = low @ [fst (alt_arc4_getbyte (rs st1))]"
    unfolding buf_loop_Suc using c1 by (auto split: sum.splits)
  from buf_loop_length[OF l] have n: "length low = n" .
  from stir_reads[OF s] s o n
  show "\<exists>st1. alt_arc4_stir e (st\<lparr>alt_arc4_count := alt_arc4_count st - 1\<rparr>) = Inr st1 \<and>
                reads st1 = reads st @ [(random_data_source_fd st1, 128)] \<and>
                length out = Suc n \<and>
                out ! n = fst (alt_arc4_getbyte (rs st1))"
    by (simp add: nth_append)
next
  assume "can_open e st"
  then show "\<exists>v st'. alt_arc4random e st = Inr (v, st')" by (rule random_ok)
next
  assume "can_open e st"
  then show "\<exists>out st'. alt_arc4random_buf e n st = Inr (out, st')" by (rule buf_ok)
next
  assume "can_open e st"
  then show "\<exists>out st'. buf_loop e (Suc n) st = Inr (out, st')" by (rule buf_loop_ok)
qed

section \<open>The claims\<close>

subsection \<open>C1: the result of close\<close>

text \<open>
  C1 says that \<^verbatim>\<open>alt_arc4random_close\<close> returns 0 on a fresh generator that never
  opened a handle. The code starts from \<^verbatim>\<open>ret = -1\<close> and only sets 0 behind the guard
  \<^verbatim>\<open>random_data_source_fd != -1\<close>: on the initial statics it returns -1.
\<close>

theorem close_fresh_counterexample:
  "fst (alt_arc4random_close mock_env initial_state) = - 1 \<and>
   fst (alt_arc4random_close mock_env initial_state) \<noteq> 0"
  by (simp add: alt_arc4random_close_def initial_state_def)

text \<open>
  C1, as the code has it: the result is 0 or -1; it is 0 exactly when a handle is stored and
  closing it succeeds, and then the stored handle becomes -1; whenever the result is -1 the
  statics are unchanged, so the stored handle is kept when closing fails; with no handle
  stored the result is -1.
\<close>

theorem close_returns:
  "(fst (alt_arc4random_close e st) = 0 \<or> fst (alt_arc4random_close e st) = - 1) \<and>
   (fst (alt_arc4random_close e st) = 0 \<longleftrightarrow>
      random_data_source_fd st \<noteq> - 1 \<and> close_result e (random_data_source_fd st) = 0) \<and>
   (fst (alt_arc4random_close e st) = 0 \<longrightarrow>
      snd (alt_arc4random_close e st) = st\<lparr>random_data_source_fd := - 1\<rparr>) \<and>
   (fst (alt_arc4random_close e st) = - 1 \<longrightarrow> snd (alt_arc4random_close e st) = st) \<and>
   (random_data_source_fd st = - 1 \<longrightarrow> fst (alt_arc4random_close e st) = - 1)"
  by (simp add: alt_arc4random_close_def)

theorem close_returns_witness:
  "random_data_source_fd ready_state \<noteq> - 1 \<and>
   close_result mock_env (random_data_source_fd ready_state) = 0 \<and>
   fst (alt_arc4random_close mock_env ready_state) = 0 \<and>
   random_data_source_fd (snd (alt_arc4random_close mock_env ready_state)) = - 1 \<and>
   random_data_source_fd initial_state = - 1 \<and>
   fst (alt_arc4random_close mock_env initial_state) = - 1 \<and>
   snd (alt_arc4random_close mock_env initial_state) = initial_state"
  using close_returns[of mock_env ready_state] close_returns[of mock_env initial_state]
  by (simp add: ready_state_def mock_env_def initial_state_def)

subsection \<open>C2: using the generator after close\<close>

text \<open>
  C2 says that the call of \<^verbatim>\<open>alt_arc4random\<close> after a close reopens the device and
  reseeds before it produces output. The device is opened in \<^verbatim>\<open>alt_arc4_init\<close> only,
  which runs only while \<^verbatim>\<open>rs_initialized\<close> is 0, and close does not reset that flag.
  After a first use and a close in the same process, the next word is drawn from the
  keystream as it was, no read is made and the stored descriptor is still -1.
\<close>

theorem close_then_random_counterexample:
  "\<not> isl (alt_arc4random mock_env initial_state) \<and>
   rs_initialized first_use \<and>
   random_data_source_fd first_use = 3 \<and>
   fst (alt_arc4random_close mock_env first_use) = 0 \<and>
   random_data_source_fd closed_after_use = - 1 \<and>
   alt_arc4random mock_env closed_after_use =
     Inr (fst (alt_arc4_getword (rs closed_after_use)),
          closed_after_use\<lparr>alt_arc4_count := 1599996,
                            rs := snd (alt_arc4_getword (rs closed_after_use))\<rparr>) \<and>
   random_data_source_fd (snd (projr (alt_arc4random mock_env closed_after_use))) = - 1 \<and>
   reads (snd (projr (alt_arc4random mock_env closed_after_use))) = reads first_use"
proof -
  have c: "fst (alt_arc4random_close mock_env first_use) = 0"
    by (simp add: alt_arc4random_close_def first_use_facts mock_env_def)
  have q: "alt_arc4random mock_env closed_after_use =
     Inr (fst (alt_arc4_getword (rs closed_after_use)),
          closed_after_use\<lparr>alt_arc4_count := 1599996,
                            rs := snd (alt_arc4_getword (rs closed_after_use))\<rparr>)"
    by (subst random_quiet) (simp_all add: closed_after_use_eq first_use_facts mock_env_def)
  have f: "random_data_source_fd closed_after_use = - 1" "reads closed_after_use = reads first_use"
    by (simp_all add: closed_after_use_eq)
  have p: "random_data_source_fd (snd (projr (alt_arc4random mock_env closed_after_use))) = - 1"
    "reads (snd (projr (alt_arc4random mock_env closed_after_use))) = reads first_use"
    unfolding q by (simp_all add: f)
  have u: "\<not> isl (alt_arc4random mock_env initial_state)"
    using random_ok[OF mock_can_open, of initial_state] by auto
  from u first_use_facts(1,2) c f(1) q p show ?thesis by (intro conjI)
qed

text \<open>
  C2, as the code has it: a successful close of an initialised generator returns 0, leaves
  it initialised and stores -1 as the descriptor. From then on, after every run of public
  calls that returns, and so after every following \<^verbatim>\<open>alt_arc4random\<close> or
  \<^verbatim>\<open>alt_arc4random_buf\<close>, in any environment, the generator is still initialised and
  the stored descriptor is still -1: the device is not opened again. In such a state, and
  so directly after the close too, a call made in the process of the recorded identifier
  with enough bytes left (more than 4 for \<^verbatim>\<open>alt_arc4random\<close>, more than \<open>n\<close> for
  \<^verbatim>\<open>alt_arc4random_buf\<close> of \<open>n\<close> bytes) makes no reseed: it returns the next word, or
  the next \<open>n\<close> bytes stored from the high index down, of the keystream as it was, and
  changes nothing but the counter and the keystream state.
\<close>

theorem close_then_use:
  "(rs_initialized st \<and> random_data_source_fd st \<noteq> - 1 \<and>
   close_result e (random_data_source_fd st) = 0 \<longrightarrow>
     fst (alt_arc4random_close e st) = 0 \<and>
     rs_initialized (snd (alt_arc4random_close e st)) \<and>
     random_data_source_fd (snd (alt_arc4random_close e st)) = - 1 \<and>
     (\<forall>u calls st'. run u calls (snd (alt_arc4random_close e st)) = Some (Inr st') \<longrightarrow>
        rs_initialized st' \<and> random_data_source_fd st' = - 1) \<and>
     (\<forall>e' v st'. alt_arc4random e' (snd (alt_arc4random_close e st)) = Inr (v, st') \<longrightarrow>
        rs_initialized st' \<and> random_data_source_fd st' = - 1) \<and>
     (\<forall>e' n out st'. alt_arc4random_buf e' n (snd (alt_arc4random_close e st)) = Inr (out, st') \<longrightarrow>
        rs_initialized st' \<and> random_data_source_fd st' = - 1) \<and>
     (\<forall>e'. 4 < alt_arc4_count st \<and> alt_arc4_stir_pid st = getpid e' \<longrightarrow>
        alt_arc4random e' (snd (alt_arc4random_close e st)) =
          Inr (fst (alt_arc4_getword (rs st)),
               st\<lparr>random_data_source_fd := - 1, alt_arc4_count := alt_arc4_count st - 4,
                   rs := snd (alt_arc4_getword (rs st))\<rparr>)) \<and>
     (\<forall>e' n. int n < alt_arc4_count st \<and> alt_arc4_stir_pid st = getpid e' \<longrightarrow>
        alt_arc4random_buf e' n (snd (alt_arc4random_close e st)) =
          Inr (rev (keystream n (rs st)),
               st\<lparr>random_data_source_fd := - 1, alt_arc4_count := alt_arc4_count st - int n,
                   rs := ((\<lambda>r. snd (alt_arc4_getbyte r)) ^^ n) (rs st)\<rparr>))) \<and>
   (released st0 \<longrightarrow>
     (\<forall>u calls st'. run u calls st0 = Some (Inr st') \<longrightarrow> released st') \<and>
     (\<forall>e' :: env. 4 < alt_arc4_count st0 \<and> alt_arc4_stir_pid st0 = getpid e' \<longrightarrow>
        alt_arc4random e' st0 =
          Inr (fst (alt_arc4_getword (rs st0)),
               st0\<lparr>alt_arc4_count := alt_arc4_count st0 - 4,
                    rs := snd (alt_arc4_getword (rs st0))\<rparr>)) \<and>
     (\<forall>(e' :: env) n. int n < alt_arc4_count st0 \<and> alt_arc4_stir_pid st0 = getpid e' \<longrightarrow>
        alt_arc4random_buf e' n st0 =
          Inr (rev (keystream n (rs st0)),
               st0\<lparr>alt_arc4_count := alt_arc4_count st0 - int n,
                    rs := ((\<lambda>r. snd (alt_arc4_getbyte r)) ^^ n) (rs st0)\<rparr>)))"
  using after_close_first_call[of st e] released_use[of st0] by blast

theorem close_then_use_witness:
  "rs_initialized ready_state \<and> random_data_source_fd ready_state \<noteq> - 1 \<and>
   close_result mock_env (random_data_source_fd ready_state) = 0 \<and>
   4 < alt_arc4_count ready_state \<and> int 2 < alt_arc4_count ready_state \<and>
   alt_arc4_stir_pid ready_state = getpid mock_env \<and>
   fst (alt_arc4random_close mock_env ready_state) = 0 \<and>
   random_data_source_fd (snd (alt_arc4random_close mock_env ready_state)) = - 1 \<and>
   alt_arc4random mock_env (snd (alt_arc4random_close mock_env ready_state)) =
     Inr (fst (alt_arc4_getword primed),
          ready_state\<lparr>random_data_source_fd := - 1, alt_arc4_count := 96,
                      rs := snd (alt_arc4_getword primed)\<rparr>) \<and>
   alt_arc4random_buf mock_env 2 (snd (alt_arc4random_close mock_env ready_state)) =
     Inr (rev (keystream 2 primed),
          ready_state\<lparr>random_data_source_fd := - 1, alt_arc4_count := 98,
                      rs := ((\<lambda>r. snd (alt_arc4_getbyte r)) ^^ 2) primed\<rparr>) \<and>
   (\<exists>st'. run True [(mock_env, Random), (mock_env, Buf 2), (mock_env, Stir)]
            (snd (alt_arc4random_close mock_env ready_state)) = Some (Inr st') \<and>
          rs_initialized st' \<and> random_data_source_fd st' = - 1) \<and>
   released (ready_state\<lparr>random_data_source_fd := - 1, alt_arc4_count := 96,
                        rs := snd (alt_arc4_getword primed)\<rparr>) \<and>
   alt_arc4random_buf mock_env 5
       (ready_state\<lparr>random_data_source_fd := - 1, alt_arc4_count := 96,
                    rs := snd (alt_arc4_getword primed)\<rparr>) =
     Inr (rev (keystream 5 (snd (alt_arc4_getword primed))),
          ready_state\<lparr>random_data_source_fd := - 1, alt_arc4_count := 91,
                      rs := ((\<lambda>r. snd (alt_arc4_getbyte r)) ^^ 5) (snd (alt_arc4_getword primed))\<rparr>)"
proof -
  let ?x = "ready_state\<lparr>random_data_source_fd := - 1, alt_arc4_count := 96,
                        rs := snd (alt_arc4_getword primed)\<rparr>"
  have x: "released ?x" "int 5 < alt_arc4_count ?x \<and> alt_arc4_stir_pid ?x = getpid mock_env"
    by (simp_all add: released_def ready_state_def mock_env_def)
  have xb: "alt_arc4random_buf mock_env 5 ?x =
     Inr (rev (keystream 5 (snd (alt_arc4_getword primed))),
          ready_state\<lparr>random_data_source_fd := - 1, alt_arc4_count := 91,
                      rs := ((\<lambda>r. snd (alt_arc4_getbyte r)) ^^ 5) (snd (alt_arc4_getword primed))\<rparr>)"
    using close_then_use[of ready_state mock_env ?x, THEN conjunct2, THEN mp, OF x(1),
            THEN conjunct2, THEN conjunct2, THEN spec, THEN spec, THEN mp, OF x(2)]
    by simp
  have h: "rs_initialized ready_state \<and> random_data_source_fd ready_state \<noteq> - 1 \<and>
   close_result mock_env (random_data_source_fd ready_state) = 0"
    "4 < alt_arc4_count ready_state \<and> alt_arc4_stir_pid ready_state = getpid mock_env"
    "int 2 < alt_arc4_count ready_state \<and> alt_arc4_stir_pid ready_state = getpid mock_env"
    "alt_arc4_count ready_state - 4 = 96" "alt_arc4_count ready_state - int 2 = 98"
    "rs ready_state = primed"
    by (simp_all add: ready_state_def mock_env_def)
  note th = close_then_use[of ready_state mock_env, THEN conjunct1, THEN mp, OF h(1)]
  let ?c = "snd (alt_arc4random_close mock_env ready_state)"
  have c0: "fst (alt_arc4random_close mock_env ready_state) = 0"
    and c1: "random_data_source_fd ?c = - 1"
    using th by blast+
  have rq: "alt_arc4random mock_env ?c =
          Inr (fst (alt_arc4_getword (rs ready_state)),
               ready_state\<lparr>random_data_source_fd := - 1,
                   alt_arc4_count := alt_arc4_count ready_state - 4,
                   rs := snd (alt_arc4_getword (rs ready_state))\<rparr>)"
    using th h(2) by blast
  have bq: "alt_arc4random_buf mock_env 2 ?c =
          Inr (rev (keystream 2 (rs ready_state)),
               ready_state\<lparr>random_data_source_fd := - 1,
                   alt_arc4_count := alt_arc4_count ready_state - int 2,
                   rs := ((\<lambda>r. snd (alt_arc4_getbyte r)) ^^ 2) (rs ready_state)\<rparr>)"
    using th h(3) by blast
  have "can_open mock_env ?c" by (rule mock_can_open)
  then obtain v s1 where r1: "alt_arc4random mock_env ?c = Inr (v, s1)"
    using random_ok by blast
  obtain out s2 where r2: "alt_arc4random_buf mock_env 2 s1 = Inr (out, s2)"
    using buf_ok[OF mock_can_open] by blast
  obtain s3 where r3: "alt_arc4_stir mock_env s2 = Inr s3"
    using stir_ok[OF mock_can_open] by blast
  have rn: "run True [(mock_env, Random), (mock_env, Buf 2), (mock_env, Stir)] ?c = Some (Inr s3)"
    using r1 r2 r3 by (simp add: alt_arc4random_stir_def)
  from th rn have "rs_initialized s3 \<and> random_data_source_fd s3 = - 1" by blast
  with rn have e: "\<exists>st'. run True [(mock_env, Random), (mock_env, Buf 2), (mock_env, Stir)] ?c
                        = Some (Inr st') \<and>
          rs_initialized st' \<and> random_data_source_fd st' = - 1" by blast
  from h c0 c1 rq bq e x(1) xb show ?thesis by simp
qed

subsection \<open>C3: the counter and the recorded process identifier after a reseed\<close>

text \<open>
  C3 says that after any reseed, also one by the public \<^verbatim>\<open>alt_arc4random_stir\<close>,
  \<^verbatim>\<open>alt_arc4_stir_pid\<close> is the current process identifier. Only
  \<^verbatim>\<open>alt_arc4_stir_if_needed\<close> assigns it; \<^verbatim>\<open>alt_arc4_stir\<close> does not. A first call
  of the public stir in process 42 leaves the initial value 0.
\<close>

theorem stir_pid_counterexample:
  "\<not> isl (alt_arc4random_stir mock_env initial_state) \<and>
   alt_arc4_count (projr (alt_arc4random_stir mock_env initial_state)) = 1600000 \<and>
   alt_arc4_stir_pid (projr (alt_arc4random_stir mock_env initial_state)) = 0 \<and>
   getpid mock_env = 42"
proof -
  obtain st' where s: "alt_arc4_stir mock_env initial_state = Inr st'"
    using stir_ok[OF mock_can_open] by blast
  from stir_Inr(2,3)[OF s] s show ?thesis
    by (simp add: alt_arc4random_stir_def initial_state_def mock_env_def)
qed

text \<open>
  C3, as the code has it: whenever a reseed gets past the opening of the device, the public
  stir returns with the counter at 1,600,000 and the recorded process identifier unchanged;
  a reseed that \<^verbatim>\<open>alt_arc4_stir_if_needed\<close> triggers returns with the counter at
  1,600,000 and the recorded process identifier equal to the current one.
\<close>

theorem reseed_count_and_pid:
  "(can_open e st \<longrightarrow>
      (\<exists>st'. alt_arc4random_stir e st = Inr st' \<and>
             alt_arc4_count st' = 1600000 \<and>
             alt_arc4_stir_pid st' = alt_arc4_stir_pid st)) \<and>
   (can_open e st \<and>
    (alt_arc4_count st \<le> 0 \<or> \<not> rs_initialized st \<or> alt_arc4_stir_pid st \<noteq> getpid e) \<longrightarrow>
      (\<exists>st'. alt_arc4_stir_if_needed e st = Inr st' \<and>
             alt_arc4_count st' = 1600000 \<and>
             alt_arc4_stir_pid st' = getpid e))"
proof (intro conjI impI)
  assume c: "can_open e st"
  then obtain st' where s: "alt_arc4_stir e st = Inr st'" using stir_ok by blast
  from stir_Inr(2,3)[OF s] s
  show "\<exists>st'. alt_arc4random_stir e st = Inr st' \<and> alt_arc4_count st' = 1600000 \<and>
             alt_arc4_stir_pid st' = alt_arc4_stir_pid st"
    by (simp add: alt_arc4random_stir_def)
next
  assume a: "can_open e st \<and>
    (alt_arc4_count st \<le> 0 \<or> \<not> rs_initialized st \<or> alt_arc4_stir_pid st \<noteq> getpid e)"
  then have "can_open e (st\<lparr>alt_arc4_stir_pid := getpid e\<rparr>)" by simp
  then obtain st' where s: "alt_arc4_stir e (st\<lparr>alt_arc4_stir_pid := getpid e\<rparr>) = Inr st'"
    using stir_ok by blast
  from stir_Inr(2,3)[OF s] s a
  show "\<exists>st'. alt_arc4_stir_if_needed e st = Inr st' \<and> alt_arc4_count st' = 1600000 \<and>
             alt_arc4_stir_pid st' = getpid e"
    by (simp add: stir_if_needed_trigger)
qed

theorem reseed_count_and_pid_witness:
  "can_open mock_env initial_state \<and> \<not> rs_initialized initial_state \<and>
   (\<exists>st'. alt_arc4random_stir mock_env initial_state = Inr st' \<and>
          alt_arc4_count st' = 1600000 \<and> alt_arc4_stir_pid st' = 0) \<and>
   (\<exists>st'. alt_arc4_stir_if_needed mock_env initial_state = Inr st' \<and>
          alt_arc4_count st' = 1600000 \<and> alt_arc4_stir_pid st' = 42)"
  using reseed_count_and_pid[of mock_env initial_state] mock_can_open[of initial_state]
  by (simp add: initial_state_def mock_env_def)

subsection \<open>C4: the table stays a permutation\<close>

text \<open>
  C4: after every run of public calls from the initial statics, and after every prefix of
  it, the table of an initialised generator holds every byte value exactly once; the same
  holds from any statics that satisfy this. Each round of the mixing loop and each
  \<^verbatim>\<open>alt_arc4_getbyte\<close> replaces the table by the one with the entries at the new \<open>i\<close>
  and \<open>j\<close> exchanged, and both counters are always at most 255.
\<close>

theorem permutation_preserved:
  "(\<forall>u calls1 calls2 st''.
      run u (calls1 @ calls2) initial_state = Some (Inr st'') \<longrightarrow>
        (\<exists>st'. run u calls1 initial_state = Some (Inr st') \<and>
               (rs_initialized st' \<longrightarrow> permutation_table (rs_s (rs st'))))) \<and>
   (\<forall>u calls st st'.
      table_inv st \<and> run u calls st = Some (Inr st') \<longrightarrow> table_inv st') \<and>
   (\<forall>dat datlen n r r'.
      addrandom_step dat datlen n r = Inr r' \<longrightarrow>
        rs_s r' = swap_entries (rs_i r') (rs_j r') (rs_s r)) \<and>
   (\<forall>r. rs_s (snd (alt_arc4_getbyte r)) =
          swap_entries (rs_i (snd (alt_arc4_getbyte r))) (rs_j (snd (alt_arc4_getbyte r))) (rs_s r)) \<and>
   (\<forall>r :: alt_arc4_stream. unat (rs_i r) \<le> 255 \<and> unat (rs_j r) \<le> 255)"
proof (intro conjI allI impI)
  fix u calls1 calls2 st''
  assume "run u (calls1 @ calls2) initial_state = Some (Inr st'')"
  from run_append[OF this] obtain st' where r: "run u calls1 initial_state = Some (Inr st')"
    by blast
  from run_table_inv[OF r table_inv_initial] r
  show "\<exists>st'. run u calls1 initial_state = Some (Inr st') \<and>
               (rs_initialized st' \<longrightarrow> permutation_table (rs_s (rs st')))"
    by (auto simp: table_inv_def)
next
  fix u calls st st'
  assume "table_inv st \<and> run u calls st = Some (Inr st')"
  then show "table_inv st'" using run_table_inv by blast
next
  fix dat datlen n r r'
  assume "addrandom_step dat datlen n r = Inr r'"
  then show "rs_s r' = swap_entries (rs_i r') (rs_j r') (rs_s r)"
    by (simp add: addrandom_step_swap)
next
  fix r
  show "rs_s (snd (alt_arc4_getbyte r)) =
          swap_entries (rs_i (snd (alt_arc4_getbyte r))) (rs_j (snd (alt_arc4_getbyte r))) (rs_s r)"
    by (simp add: getbyte_eq)
next
  fix r :: alt_arc4_stream
  show "unat (rs_i r) \<le> 255" using unat_8_bound[of "rs_i r"] by simp
next
  fix r :: alt_arc4_stream
  show "unat (rs_j r) \<le> 255" using unat_8_bound[of "rs_j r"] by simp
qed

theorem permutation_preserved_witness:
  "run True ([(mock_env, Random)] @ [(mock_env, Close)]) initial_state = Some (Inr closed_after_use) \<and>
   run True [(mock_env, Random)] initial_state = Some (Inr first_use) \<and>
   rs_initialized first_use \<and> permutation_table (rs_s (rs first_use)) \<and>
   table_inv ready_state \<and>
   run False [(mock_env, Close), (mock_env, Close)] ready_state =
     Some (Inr (ready_state\<lparr>random_data_source_fd := - 1\<rparr>)) \<and>
   table_inv (ready_state\<lparr>random_data_source_fd := - 1\<rparr>)"
proof -
  obtain v st1 where r: "alt_arc4random mock_env initial_state = Inr (v, st1)"
    using random_ok[OF mock_can_open] by blast
  then have f: "st1 = first_use" by (simp add: first_use_def)
  have r1: "run True [(mock_env, Random)] initial_state = Some (Inr first_use)"
    using r f by simp
  have r2: "run True ([(mock_env, Random)] @ [(mock_env, Close)]) initial_state =
              Some (Inr closed_after_use)"
    using r f by (simp add: closed_after_use_def)
  note th = permutation_preserved
  from th[THEN conjunct1, rule_format, OF r2] r1
  have p: "permutation_table (rs_s (rs first_use))" by (simp add: first_use_facts)
  have k: "table_inv ready_state"
    by (simp add: table_inv_def ready_state_def primed_def permutation_table_def)
  have r3: "run False [(mock_env, Close), (mock_env, Close)] ready_state =
     Some (Inr (ready_state\<lparr>random_data_source_fd := - 1\<rparr>))"
    by (simp add: alt_arc4random_close_def ready_state_def mock_env_def)
  from th[THEN conjunct2, THEN conjunct1, rule_format, OF conjI, OF k r3]
  have t: "table_inv (ready_state\<lparr>random_data_source_fd := - 1\<rparr>)" .
  from r1 r2 p k r3 t first_use_facts(1) show ?thesis by (intro conjI)
qed

subsection \<open>C5: a reseed comes before the output\<close>

text \<open>
  C5: when the process identifier differs from the recorded one, or the generator is not
  initialised, or the counter is at most 0 (for \<^verbatim>\<open>alt_arc4random\<close> after 4 has been
  subtracted), every result of \<^verbatim>\<open>alt_arc4random\<close> is the word drawn from the state a
  reseed returned, and every result of \<^verbatim>\<open>alt_arc4random_buf\<close> is the buffer its loop
  fills from the state a reseed returned; the reseed has made its read. In the loop, a round
  whose decrement brings the counter to 0 or below reseeds first, and the byte it stores at
  \<^verbatim>\<open>buf[n]\<close> is the first byte of the reseeded state. Whenever the device can be
  opened, the three calls return. Every round of the loop is determined: a round that
  starts with the counter at 1 or below returns exactly what the rest of the loop returns
  from the reseeded state after its byte has been drawn, with that byte stored on top; a
  round that starts with the counter above 1 does the same from the state as it was, with
  no reseed; and without a trigger at entry \<^verbatim>\<open>alt_arc4random_buf\<close> is its loop. So a
  loop entered with the counter at \<open>c\<close> fills \<open>n\<close> bytes with exactly
  \<open>loop_reseeds c n\<close> reseeds: none while fewer than \<open>max c 1\<close> bytes are asked for, one
  in the round that brings the counter to 0, and one more every 1,600,000 rounds after it.
\<close>

theorem reseed_before_output:
  "(alt_arc4_count st - 4 \<le> 0 \<or> \<not> rs_initialized st \<or> alt_arc4_stir_pid st \<noteq> getpid e \<longrightarrow>
      (\<forall>v st'. alt_arc4random e st = Inr (v, st') \<longrightarrow>
         (\<exists>st1. alt_arc4_stir e (st\<lparr>alt_arc4_count := alt_arc4_count st - 4,
                                   alt_arc4_stir_pid := getpid e\<rparr>) = Inr st1 \<and>
                reads st1 = reads st @ [(random_data_source_fd st1, 128)] \<and>
                v = fst (alt_arc4_getword (rs st1)) \<and>
                st' = st1\<lparr>rs := snd (alt_arc4_getword (rs st1))\<rparr>))) \<and>
   (alt_arc4_count st \<le> 0 \<or> \<not> rs_initialized st \<or> alt_arc4_stir_pid st \<noteq> getpid e \<longrightarrow>
      (\<forall>out st'. alt_arc4random_buf e n st = Inr (out, st') \<longrightarrow>
         (\<exists>st1. alt_arc4_stir e (st\<lparr>alt_arc4_stir_pid := getpid e\<rparr>) = Inr st1 \<and>
                reads st1 = reads st @ [(random_data_source_fd st1, 128)] \<and>
                buf_loop e n st1 = Inr (out, st')))) \<and>
   (alt_arc4_count st - 1 \<le> 0 \<longrightarrow>
      (\<forall>out st'. buf_loop e (Suc n) st = Inr (out, st') \<longrightarrow>
         (\<exists>st1. alt_arc4_stir e (st\<lparr>alt_arc4_count := alt_arc4_count st - 1\<rparr>) = Inr st1 \<and>
                reads st1 = reads st @ [(random_data_source_fd st1, 128)] \<and>
                length out = Suc n \<and>
                out ! n = fst (alt_arc4_getbyte (rs st1))))) \<and>
   (can_open e st \<longrightarrow>
      (\<exists>v st'. alt_arc4random e st = Inr (v, st')) \<and>
      (\<exists>out st'. alt_arc4random_buf e n st = Inr (out, st')) \<and>
      (\<exists>out st'. buf_loop e (Suc n) st = Inr (out, st'))) \<and>
   (0 < alt_arc4_count st \<and> rs_initialized st \<and> alt_arc4_stir_pid st = getpid e \<longrightarrow>
      alt_arc4random_buf e n st = buf_loop e n st) \<and>
   buf_loop e 0 st = Inr ([], st) \<and>
   (alt_arc4_count st - 1 \<le> 0 \<longrightarrow>
      (\<forall>out st'. (buf_loop e (Suc n) st = Inr (out, st')) =
         (\<exists>st1 low. alt_arc4_stir e (st\<lparr>alt_arc4_count := alt_arc4_count st - 1\<rparr>) = Inr st1 \<and>
            reads st1 = reads st @ [(random_data_source_fd st1, 128)] \<and>
            buf_loop e n (st1\<lparr>rs := snd (alt_arc4_getbyte (rs st1))\<rparr>) = Inr (low, st') \<and>
            out = low @ [fst (alt_arc4_getbyte (rs st1))]))) \<and>
   (0 < alt_arc4_count st - 1 \<longrightarrow>
      (\<forall>out st'. (buf_loop e (Suc n) st = Inr (out, st')) =
         (\<exists>low. buf_loop e n (st\<lparr>alt_arc4_count := alt_arc4_count st - 1,
                                   rs := snd (alt_arc4_getbyte (rs st))\<rparr>) = Inr (low, st') \<and>
            out = low @ [fst (alt_arc4_getbyte (rs st))]))) \<and>
   (can_open e st \<longrightarrow>
      (\<exists>out st'. buf_loop e n st = Inr (out, st') \<and> length out = n \<and>
         length (reads st') = length (reads st) + loop_reseeds (alt_arc4_count st) n \<and>
         alt_arc4_count st' = loop_count_after (alt_arc4_count st) n))"
proof -
  have q: "0 < alt_arc4_count st \<and> rs_initialized st \<and> alt_arc4_stir_pid st = getpid e \<longrightarrow>
      alt_arc4random_buf e n st = buf_loop e n st"
    by (simp add: alt_arc4random_buf_def stir_if_needed_quiet)
  have z: "buf_loop e 0 st = Inr ([], st)" by simp
  have r1: "alt_arc4_count st - 1 \<le> 0 \<longrightarrow>
      (\<forall>out st'. (buf_loop e (Suc n) st = Inr (out, st')) =
         (\<exists>st1 low. alt_arc4_stir e (st\<lparr>alt_arc4_count := alt_arc4_count st - 1\<rparr>) = Inr st1 \<and>
            reads st1 = reads st @ [(random_data_source_fd st1, 128)] \<and>
            buf_loop e n (st1\<lparr>rs := snd (alt_arc4_getbyte (rs st1))\<rparr>) = Inr (low, st') \<and>
            out = low @ [fst (alt_arc4_getbyte (rs st1))]))"
    using buf_loop_round_reseed[of st e n] by blast
  have r2: "0 < alt_arc4_count st - 1 \<longrightarrow>
      (\<forall>out st'. (buf_loop e (Suc n) st = Inr (out, st')) =
         (\<exists>low. buf_loop e n (st\<lparr>alt_arc4_count := alt_arc4_count st - 1,
                                   rs := snd (alt_arc4_getbyte (rs st))\<rparr>) = Inr (low, st') \<and>
            out = low @ [fst (alt_arc4_getbyte (rs st))]))"
    using buf_loop_round_quiet[of st e n] by blast
  have g: "can_open e st \<longrightarrow>
      (\<exists>out st'. buf_loop e n st = Inr (out, st') \<and> length out = n \<and>
         length (reads st') = length (reads st) + loop_reseeds (alt_arc4_count st) n \<and>
         alt_arc4_count st' = loop_count_after (alt_arc4_count st) n)"
    using buf_loop_reseeds[of e st n] by blast
  note en = entry_reseed[of st e n]
  note e1 = en[THEN conjunct1]
  note e2 = en[THEN conjunct2, THEN conjunct1]
  note e3 = en[THEN conjunct2, THEN conjunct2, THEN conjunct1]
  note e4 = en[THEN conjunct2, THEN conjunct2, THEN conjunct2]
  show ?thesis
    by (rule conjI[OF e1 conjI[OF e2 conjI[OF e3 conjI[OF e4 conjI[OF q conjI[OF z conjI[OF r1 conjI[OF r2 g]]]]]]]])
qed

theorem reseed_before_output_witness:
  "\<not> rs_initialized initial_state \<and> alt_arc4_count initial_state - 1 \<le> 0 \<and>
   can_open mock_env initial_state \<and>
   (\<exists>v st' st1. alt_arc4random mock_env initial_state = Inr (v, st') \<and>
       alt_arc4_stir mock_env (initial_state\<lparr>alt_arc4_count := - 4, alt_arc4_stir_pid := 42\<rparr>) = Inr st1 \<and>
       reads st1 = [(random_data_source_fd st1, 128)] \<and>
       v = fst (alt_arc4_getword (rs st1))) \<and>
   (\<exists>out st' st1. alt_arc4random_buf mock_env 2 initial_state = Inr (out, st') \<and>
       alt_arc4_stir mock_env (initial_state\<lparr>alt_arc4_stir_pid := 42\<rparr>) = Inr st1 \<and>
       buf_loop mock_env 2 st1 = Inr (out, st')) \<and>
   (\<exists>out st' st1. buf_loop mock_env (Suc 1) initial_state = Inr (out, st') \<and>
       alt_arc4_stir mock_env (initial_state\<lparr>alt_arc4_count := - 1\<rparr>) = Inr st1 \<and>
       length out = 2 \<and> out ! 1 = fst (alt_arc4_getbyte (rs st1))) \<and>
   can_open mock_env (ready_state\<lparr>alt_arc4_count := 2\<rparr>) \<and>
   (\<exists>out st'. buf_loop mock_env 3 (ready_state\<lparr>alt_arc4_count := 2\<rparr>) = Inr (out, st') \<and>
       length out = 3 \<and> length (reads st') = 2 \<and> alt_arc4_count st' = 1599999) \<and>
   (\<exists>out st' low. buf_loop mock_env (Suc 2) (ready_state\<lparr>alt_arc4_count := 2\<rparr>) = Inr (out, st') \<and>
       buf_loop mock_env 2 (ready_state\<lparr>alt_arc4_count := 1,
                                        rs := snd (alt_arc4_getbyte primed)\<rparr>) = Inr (low, st') \<and>
       out = low @ [fst (alt_arc4_getbyte primed)]) \<and>
   (\<exists>low st' st1 low'.
       buf_loop mock_env (Suc 1) (ready_state\<lparr>alt_arc4_count := 1,
                                              rs := snd (alt_arc4_getbyte primed)\<rparr>) = Inr (low, st') \<and>
       alt_arc4_stir mock_env (ready_state\<lparr>alt_arc4_count := 0,
                                           rs := snd (alt_arc4_getbyte primed)\<rparr>) = Inr st1 \<and>
       reads st1 = [(3, 128), (3, 128)] \<and>
       buf_loop mock_env 1 (st1\<lparr>rs := snd (alt_arc4_getbyte (rs st1))\<rparr>) = Inr (low', st') \<and>
       low = low' @ [fst (alt_arc4_getbyte (rs st1))])"
proof -
  note th = reseed_before_output[of initial_state mock_env]
  have i: "\<not> rs_initialized initial_state" "alt_arc4_count initial_state = 0"
    "reads initial_state = []" "getpid mock_env = 42"
    by (simp_all add: initial_state_def mock_env_def)
  have c: "can_open mock_env initial_state" by (rule mock_can_open)
  from th[of 2] c obtain v st' where r: "alt_arc4random mock_env initial_state = Inr (v, st')" by blast
  from th[of 2] c obtain out st2 where b: "alt_arc4random_buf mock_env 2 initial_state = Inr (out, st2)" by blast
  from th[of 1] c obtain out' st3 where l: "buf_loop mock_env (Suc 1) initial_state = Inr (out', st3)" by blast
  from th[of 2] i r have 1: "\<exists>v st' st1. alt_arc4random mock_env initial_state = Inr (v, st') \<and>
       alt_arc4_stir mock_env (initial_state\<lparr>alt_arc4_count := - 4, alt_arc4_stir_pid := 42\<rparr>) = Inr st1 \<and>
       reads st1 = [(random_data_source_fd st1, 128)] \<and>
       v = fst (alt_arc4_getword (rs st1))"
    by auto
  from th[of 2] i b have 2: "\<exists>out st' st1. alt_arc4random_buf mock_env 2 initial_state = Inr (out, st') \<and>
       alt_arc4_stir mock_env (initial_state\<lparr>alt_arc4_stir_pid := 42\<rparr>) = Inr st1 \<and>
       buf_loop mock_env 2 st1 = Inr (out, st')"
    by auto
  from th[of 1] i l have 3: "\<exists>out st' st1. buf_loop mock_env (Suc 1) initial_state = Inr (out, st') \<and>
       alt_arc4_stir mock_env (initial_state\<lparr>alt_arc4_count := - 1\<rparr>) = Inr st1 \<and>
       length out = 2 \<and> out ! 1 = fst (alt_arc4_getbyte (rs st1))"
    by auto
  let ?a = "ready_state\<lparr>alt_arc4_count := 2\<rparr>"
  let ?b = "ready_state\<lparr>alt_arc4_count := 1, rs := snd (alt_arc4_getbyte primed)\<rparr>"
  have ca: "can_open mock_env ?a" by (rule mock_can_open)
  have va: "alt_arc4_count ?a = 2" "reads ?a = [(3, 128)]" "rs ?a = primed"
    "random_data_source_fd ?a = 3" "rs_initialized ?a"
    by (simp_all add: ready_state_def)
  have lr: "loop_reseeds 2 3 = 1" "loop_count_after 2 3 = 1599999"
    by (simp_all add: loop_reseeds_def loop_count_after_def)
  note ta = reseed_before_output[of ?a mock_env]
  from ta[of 3, THEN conjunct2, THEN conjunct2, THEN conjunct2, THEN conjunct2, THEN conjunct2, THEN conjunct2, THEN conjunct2, THEN conjunct2, THEN mp, OF ca] obtain out st' where
    l3: "buf_loop mock_env 3 ?a = Inr (out, st')" "length out = 3"
      "length (reads st') = length (reads ?a) + loop_reseeds (alt_arc4_count ?a) 3"
      "alt_arc4_count st' = loop_count_after (alt_arc4_count ?a) 3"
    by blast
  then have 4: "\<exists>out st'. buf_loop mock_env 3 ?a = Inr (out, st') \<and>
       length out = 3 \<and> length (reads st') = 2 \<and> alt_arc4_count st' = 1599999"
    unfolding va lr by auto
  have qa: "0 < alt_arc4_count ?a - 1" by (simp add: ready_state_def)
  have "buf_loop mock_env (Suc 2) ?a = Inr (out, st')" using l3(1) by (simp add: numeral_3_eq_3)
  then have "\<exists>low. buf_loop mock_env 2 (?a\<lparr>alt_arc4_count := alt_arc4_count ?a - 1,
                                   rs := snd (alt_arc4_getbyte (rs ?a))\<rparr>) = Inr (low, st') \<and>
            out = low @ [fst (alt_arc4_getbyte (rs ?a))]"
    using ta[of 2, THEN conjunct2, THEN conjunct2, THEN conjunct2, THEN conjunct2, THEN conjunct2, THEN conjunct2, THEN conjunct2, THEN conjunct1, THEN mp, OF qa, THEN spec, THEN spec, of out st']
    by (rule iffD1[rotated])
  then obtain low where
    l2: "buf_loop mock_env 2 (?a\<lparr>alt_arc4_count := alt_arc4_count ?a - 1,
                                   rs := snd (alt_arc4_getbyte (rs ?a))\<rparr>) = Inr (low, st')"
      "out = low @ [fst (alt_arc4_getbyte (rs ?a))]"
    by blast
  have ab: "?a\<lparr>alt_arc4_count := alt_arc4_count ?a - 1, rs := snd (alt_arc4_getbyte (rs ?a))\<rparr> = ?b"
    by (simp add: ready_state_def)
  from l2 have l2b: "buf_loop mock_env 2 ?b = Inr (low, st')"
    "out = low @ [fst (alt_arc4_getbyte primed)]"
    unfolding ab by (simp_all add: ready_state_def)
  from l3(1) l2b have 5: "\<exists>out st' low. buf_loop mock_env (Suc 2) ?a = Inr (out, st') \<and>
       buf_loop mock_env 2 ?b = Inr (low, st') \<and>
       out = low @ [fst (alt_arc4_getbyte primed)]"
    by (auto simp: numeral_3_eq_3)
  have qb: "alt_arc4_count ?b - 1 \<le> 0" by simp
  have l2c: "buf_loop mock_env (Suc 1) ?b = Inr (low, st')" using l2b(1) by (simp add: numeral_2_eq_2)
  note tb = reseed_before_output[of ?b mock_env 1]
  have "\<exists>st1 low'. alt_arc4_stir mock_env (?b\<lparr>alt_arc4_count := alt_arc4_count ?b - 1\<rparr>) = Inr st1 \<and>
      reads st1 = reads ?b @ [(random_data_source_fd st1, 128)] \<and>
      buf_loop mock_env 1 (st1\<lparr>rs := snd (alt_arc4_getbyte (rs st1))\<rparr>) = Inr (low', st') \<and>
      low = low' @ [fst (alt_arc4_getbyte (rs st1))]"
    using l2c tb[THEN conjunct2, THEN conjunct2, THEN conjunct2, THEN conjunct2, THEN conjunct2, THEN conjunct2, THEN conjunct1, THEN mp, OF qb, THEN spec, THEN spec, of low st']
    by (rule iffD1[rotated])
  then obtain st1 low' where
    l1: "alt_arc4_stir mock_env (?b\<lparr>alt_arc4_count := alt_arc4_count ?b - 1\<rparr>) = Inr st1"
      "reads st1 = reads ?b @ [(random_data_source_fd st1, 128)]"
      "buf_loop mock_env 1 (st1\<lparr>rs := snd (alt_arc4_getbyte (rs st1))\<rparr>) = Inr (low', st')"
      "low = low' @ [fst (alt_arc4_getbyte (rs st1))]"
    by blast
  have bb: "?b\<lparr>alt_arc4_count := alt_arc4_count ?b - 1\<rparr> =
            ready_state\<lparr>alt_arc4_count := 0, rs := snd (alt_arc4_getbyte primed)\<rparr>"
    by simp
  have f1: "random_data_source_fd st1 = 3"
    using stir_Inr(5)[OF l1(1)] by (simp add: ready_state_def)
  have rb: "reads st1 = [(3, 128), (3, 128)]"
    using l1(2) f1 by (simp add: ready_state_def)
  from l2c l1 rb have 6: "\<exists>low st' st1 low'.
       buf_loop mock_env (Suc 1) ?b = Inr (low, st') \<and>
       alt_arc4_stir mock_env (ready_state\<lparr>alt_arc4_count := 0,
                                           rs := snd (alt_arc4_getbyte primed)\<rparr>) = Inr st1 \<and>
       reads st1 = [(3, 128), (3, 128)] \<and>
       buf_loop mock_env 1 (st1\<lparr>rs := snd (alt_arc4_getbyte (rs st1))\<rparr>) = Inr (low', st') \<and>
       low = low' @ [fst (alt_arc4_getbyte (rs st1))]"
    unfolding bb by blast
  from i c 1 2 3 have old: "\<not> rs_initialized initial_state \<and> alt_arc4_count initial_state - 1 \<le> 0 \<and>
   can_open mock_env initial_state \<and>
   (\<exists>v st' st1. alt_arc4random mock_env initial_state = Inr (v, st') \<and>
       alt_arc4_stir mock_env (initial_state\<lparr>alt_arc4_count := - 4, alt_arc4_stir_pid := 42\<rparr>) = Inr st1 \<and>
       reads st1 = [(random_data_source_fd st1, 128)] \<and>
       v = fst (alt_arc4_getword (rs st1))) \<and>
   (\<exists>out st' st1. alt_arc4random_buf mock_env 2 initial_state = Inr (out, st') \<and>
       alt_arc4_stir mock_env (initial_state\<lparr>alt_arc4_stir_pid := 42\<rparr>) = Inr st1 \<and>
       buf_loop mock_env 2 st1 = Inr (out, st')) \<and>
   (\<exists>out st' st1. buf_loop mock_env (Suc 1) initial_state = Inr (out, st') \<and>
       alt_arc4_stir mock_env (initial_state\<lparr>alt_arc4_count := - 1\<rparr>) = Inr st1 \<and>
       length out = 2 \<and> out ! 1 = fst (alt_arc4_getbyte (rs st1)))" by simp
  note o1 = old[THEN conjunct1]
  note o2 = old[THEN conjunct2, THEN conjunct1]
  note o3 = old[THEN conjunct2, THEN conjunct2, THEN conjunct1]
  note o4 = old[THEN conjunct2, THEN conjunct2, THEN conjunct2, THEN conjunct1]
  note o5 = old[THEN conjunct2, THEN conjunct2, THEN conjunct2, THEN conjunct2, THEN conjunct1]
  note o6 = old[THEN conjunct2, THEN conjunct2, THEN conjunct2, THEN conjunct2, THEN conjunct2]
  show ?thesis
    by (rule conjI[OF o1 conjI[OF o2 conjI[OF o3 conjI[OF o4 conjI[OF o5 conjI[OF o6
          conjI[OF ca conjI[OF 4 conjI[OF 5 6]]]]]]]]])
qed

subsection \<open>C6: the steps of a reseed\<close>




subsection \<open>C7: the result of uniform\<close>

text \<open>
  C7: \<^verbatim>\<open>alt_arc4random_uniform\<close> returns 0, without drawing, when the bound \<open>U\<close> is
  below 2; for \<open>U \<ge> 1\<close> every value it returns is below \<open>U\<close>; and for \<open>U \<ge> 2\<close>, in
  either build, it returns \<open>v\<close> exactly when \<open>v = r mod U\<close> for the first word \<open>r\<close> of the
  successive calls of \<^verbatim>\<open>alt_arc4random\<close> with \<open>r \<ge> 2\<^sup>3\<^sup>2 mod U\<close>, so it returns as soon
  as such a word is drawn.
\<close>

theorem uniform_result:
  "(U < 2 \<longrightarrow> alt_arc4random_uniform u e U st = Some (Inr (0, st))) \<and>
   (1 \<le> U \<longrightarrow>
      (\<forall>v st'. alt_arc4random_uniform u e U st = Some (Inr (v, st')) \<longrightarrow> v < U)) \<and>
   (2 \<le> U \<longrightarrow>
      (\<forall>v st'. alt_arc4random_uniform u e U st = Some (Inr (v, st')) \<longleftrightarrow>
         (\<exists>k r. first_accepted e (of_nat (2 ^ 32 mod unat U)) k st r st' \<and> v = r mod U)))"
proof (intro conjI impI allI)
  assume "U < 2"
  then show "alt_arc4random_uniform u e U st = Some (Inr (0, st))"
    by (simp add: alt_arc4random_uniform_def)
next
  fix v st'
  assume u: "1 \<le> U" and r: "alt_arc4random_uniform u e U st = Some (Inr (v, st'))"
  show "v < U"
  proof (cases "U < 2")
    case True
    with r have "v = 0" by (simp add: alt_arc4random_uniform_def)
    moreover from u have "0 < U" by (simp add: word_le_nat_alt word_less_nat_alt)
    ultimately show ?thesis by simp
  next
    case False
    then have u2: "2 \<le> U" by (simp add: not_less)
    then have pos: "0 < U" by (simp add: word_le_nat_alt word_less_nat_alt)
    from r obtain x where "v = x mod U" unfolding uniform_Some_iff[OF u2] by blast
    then show ?thesis using pos by (simp add: word_mod_less_divisor)
  qed
next
  fix v st'
  assume "2 \<le> U"
  then show "alt_arc4random_uniform u e U st = Some (Inr (v, st')) \<longleftrightarrow>
         (\<exists>k r. first_accepted e (of_nat (2 ^ 32 mod unat U)) k st r st' \<and> v = r mod U)"
    by (rule uniform_Some_iff)
qed

theorem uniform_result_witness:
  "(0 :: 32 word) < 2 \<and>
   alt_arc4random_uniform True mock_env 0 ready_state = Some (Inr (0, ready_state)) \<and>
   (1 :: 32 word) \<le> 10 \<and> (2 :: 32 word) \<le> 10 \<and>
   first_accepted mock_env 6 0 ready_state 0x0205070D
     (snd (projr (alt_arc4random mock_env ready_state))) \<and>
   alt_arc4random_uniform False mock_env 10 ready_state =
     Some (Inr (7, snd (projr (alt_arc4random mock_env ready_state)))) \<and>
   (7 :: 32 word) < 10"
proof -
  have q: "alt_arc4random mock_env ready_state =
             Inr (0x0205070D, snd (projr (alt_arc4random mock_env ready_state)))"
    by (subst (1 2) random_quiet) (simp_all add: ready_state_def mock_env_def getword_primed)
  then have f: "first_accepted mock_env 6 0 ready_state 0x0205070D
                  (snd (projr (alt_arc4random mock_env ready_state)))"
    unfolding first_accepted_0 by simp
  have m: "(of_nat (2 ^ 32 mod unat (10 :: 32 word)) :: 32 word) = 6" by simp
  have r: "(0x0205070D :: 32 word) mod 10 = 7" by simp
  note th0 = uniform_result[of 0 True mock_env ready_state]
  note th = uniform_result[of 10 False mock_env ready_state]
  from th0 have a: "alt_arc4random_uniform True mock_env 0 ready_state = Some (Inr (0, ready_state))"
    by simp
  have h1: "(1 :: 32 word) \<le> 10" and h2: "(2 :: 32 word) \<le> 10" by simp_all
  have e: "\<exists>k r. first_accepted mock_env (of_nat (2 ^ 32 mod unat (10 :: 32 word))) k ready_state r
                  (snd (projr (alt_arc4random mock_env ready_state))) \<and> (7 :: 32 word) = r mod 10"
    unfolding m using f r by (intro exI[of _ 0] exI[of _ "0x0205070D"]) simp
  have b: "alt_arc4random_uniform False mock_env 10 ready_state =
     Some (Inr (7, snd (projr (alt_arc4random mock_env ready_state))))"
    using th[THEN conjunct2, THEN conjunct2, THEN mp, OF h2, THEN spec, THEN spec,
             of 7 "snd (projr (alt_arc4random mock_env ready_state))"] e
    by (rule iffD2)
  have c: "(7 :: 32 word) < 10"
    using th[THEN conjunct2, THEN conjunct1, THEN mp, OF h1, THEN spec, THEN spec, THEN mp, OF b] .
  from a b c f show ?thesis by simp
qed

subsection \<open>C8: the 32-bit computation of the bound\<close>

text \<open>
  C8: in the branch without 64-bit arithmetic, for \<open>2 \<le> U \<le> 2\<^sup>3\<^sup>1\<close> the bound is
  \<^verbatim>\<open>((0xffffffff - 2*U) + 1) % U\<close> in wrapping 32-bit arithmetic and its value is
  \<open>2\<^sup>3\<^sup>2 mod U\<close>; for \<open>U > 2\<^sup>3\<^sup>1\<close> the bound is \<^verbatim>\<open>1 + ~U\<close>, its value is
  \<open>2\<^sup>3\<^sup>2 - U\<close>, and that is \<open>2\<^sup>3\<^sup>2 mod U\<close>.
\<close>

theorem uniform_min32_remainder:
  "(2 \<le> U \<and> U \<le> 0x80000000 \<longrightarrow>
      uniform_min32 U = ((0xffffffff - (U * 2)) + 1) mod U \<and>
      unat (uniform_min32 U) = 2 ^ 32 mod unat U) \<and>
   (0x80000000 < U \<longrightarrow>
      uniform_min32 U = 1 + NOT U \<and>
      unat (uniform_min32 U) = 2 ^ 32 - unat U \<and>
      2 ^ 32 - unat U = 2 ^ 32 mod unat U)"
proof (intro conjI impI)
  assume a: "2 \<le> U \<and> U \<le> 0x80000000"
  then show "uniform_min32 U = ((0xffffffff - (U * 2)) + 1) mod U"
    by (simp add: uniform_min32_def not_less[symmetric])
  from a show "unat (uniform_min32 U) = 2 ^ 32 mod unat U"
    using uniform_min32_low[of U] by simp
next
  assume a: "0x80000000 < U"
  then show "uniform_min32 U = 1 + NOT U" by (simp add: uniform_min32_def)
  from a show "unat (uniform_min32 U) = 2 ^ 32 - unat U"
    using uniform_min32_high(1)[of U] by simp
  from a show "2 ^ 32 - unat U = 2 ^ 32 mod unat U"
    using uniform_min32_high(2)[of U] by simp
qed

theorem uniform_min32_remainder_witness:
  "(2 :: 32 word) \<le> 10 \<and> (10 :: 32 word) \<le> 0x80000000 \<and>
   unat (uniform_min32 10) = 2 ^ 32 mod unat (10 :: 32 word) \<and>
   unat (uniform_min32 10) = 6 \<and>
   (0x80000000 :: 32 word) < 0x80000001 \<and>
   unat (uniform_min32 0x80000001) = 2 ^ 32 - unat (0x80000001 :: 32 word) \<and>
   unat (uniform_min32 0x80000001) = 2147483647"
  using uniform_min32_remainder[of 10] uniform_min32_remainder[of "0x80000001"]
  by simp

subsection \<open>C9: bytes and words of the keystream\<close>

text \<open>
  C9: \<^verbatim>\<open>alt_arc4_getbyte\<close> increments \<open>i\<close>, reads \<open>si = s[i]\<close>, adds it to \<open>j\<close>, reads
  \<open>sj = s[j]\<close>, exchanges the two entries and returns the entry at \<open>(si + sj) mod 256\<close> of
  the new table; \<^verbatim>\<open>alt_arc4_getword\<close> leaves the state of four successive calls and
  returns their bytes in big-endian order, the first byte being the most significant.
\<close>

theorem getword_big_endian:
  "(let i1 = rs_i r + 1;
        si = rs_s r i1;
        j1 = rs_j r + si;
        sj = rs_s r j1;
        s' = swap_entries i1 j1 (rs_s r)
    in alt_arc4_getbyte r =
         (s' (of_nat ((unat si + unat sj) mod 256)), \<lparr>rs_i = i1, rs_j = j1, rs_s = s'\<rparr>)) \<and>
   (let (b1, r1) = alt_arc4_getbyte r;
        (b2, r2) = alt_arc4_getbyte r1;
        (b3, r3) = alt_arc4_getbyte r2;
        (b4, r4) = alt_arc4_getbyte r3
    in snd (alt_arc4_getword r) = r4 \<and>
       unat (fst (alt_arc4_getword r)) =
         unat b1 * 2 ^ 24 + unat b2 * 2 ^ 16 + unat b3 * 2 ^ 8 + unat b4)"
proof
  have "(of_nat ((unat (rs_s r (rs_i r + 1)) + unat (rs_s r (rs_j r + rs_s r (rs_i r + 1)))) mod 256) :: 8 word)
        = rs_s r (rs_i r + 1) + rs_s r (rs_j r + rs_s r (rs_i r + 1))"
    using getbyte_index[of "rs_s r (rs_i r + 1)" "rs_s r (rs_j r + rs_s r (rs_i r + 1))"]
    by (simp add: and_255_take_bit take_bit_eq_mod)
  then show "let i1 = rs_i r + 1;
        si = rs_s r i1;
        j1 = rs_j r + si;
        sj = rs_s r j1;
        s' = swap_entries i1 j1 (rs_s r)
    in alt_arc4_getbyte r =
         (s' (of_nat ((unat si + unat sj) mod 256)), \<lparr>rs_i = i1, rs_j = j1, rs_s = s'\<rparr>)"
    by (simp add: Let_def getbyte_eq)
  show "let (b1, r1) = alt_arc4_getbyte r;
        (b2, r2) = alt_arc4_getbyte r1;
        (b3, r3) = alt_arc4_getbyte r2;
        (b4, r4) = alt_arc4_getbyte r3
    in snd (alt_arc4_getword r) = r4 \<and>
       unat (fst (alt_arc4_getword r)) =
         unat b1 * 2 ^ 24 + unat b2 * 2 ^ 16 + unat b3 * 2 ^ 8 + unat b4"
    by (simp only: Let_def split_beta getword_eq fst_conv snd_conv unat_big_endian)
qed

subsection \<open>C10: the length given to addrandom\<close>

text \<open>
  C10 says that the mix-in is total only for \<open>datlen \<ge> 1\<close>, and that the remainder by zero
  is out of reach exactly when \<open>datlen > 0\<close>. \<^verbatim>\<open>datlen\<close> is an \<^verbatim>\<open>int\<close>, and C's
  remainder by a negative divisor is defined: with \<open>datlen = -3\<close> and a buffer of 3 bytes
  every round reads \<^verbatim>\<open>dat[n % -3]\<close>, an index from 0 to 2, and the mix-in returns.
\<close>

theorem addrandom_negative_length_counterexample:
  "\<not> isl (alt_arc4_addrandom [1, 2, 3] (- 3) primed) \<and>
   alt_arc4_addrandom [1, 2, 3] (- 3) primed \<noteq> Inl DIV_BY_ZERO \<and>
   \<not> (1 :: int) \<le> - 3 \<and> \<not> (0 :: int) < - 3"
proof -
  obtain r' where "alt_arc4_addrandom [1, 2, 3] (- 3) primed = Inr r'"
    using alt_arc4_addrandom_ok_abs[of "- 3" "[1, 2, 3]" primed] by auto
  then show ?thesis by simp
qed

text \<open>
  C10, as the code has it: the mix-in reaches the remainder by zero exactly when
  \<open>datlen = 0\<close>, and so does the public \<^verbatim>\<open>alt_arc4random_addrandom\<close>, which has no
  guard, once it is past a reseed. For every \<open>datlen \<ge> 1\<close> that the buffer has, the mix-in
  returns and each round \<open>n\<close> reads \<^verbatim>\<open>dat[n % datlen]\<close> with an index in
  \<open>[0, datlen)\<close> inside the buffer. The same holds for every \<open>datlen\<close> other than 0 with
  \<open>|datlen|\<close> in place of \<open>datlen\<close>: among the lengths whose absolute value the buffer
  has, the mix-in returns exactly for \<open>datlen \<noteq> 0\<close>.
\<close>

theorem addrandom_precondition:
  "(1 \<le> datlen \<and> datlen \<le> int (length dat) \<longrightarrow>
      (\<exists>r'. alt_arc4_addrandom dat datlen r = Inr r') \<and>
      (\<forall>n r0. \<exists>r1. addrandom_step dat datlen n r0 = Inr r1 \<and>
                 rs_j r1 = rs_j r0 + rs_s r0 (rs_i r0 + 1) + dat ! nat (int n mod datlen) \<and>
                 0 \<le> int n mod datlen \<and> int n mod datlen < datlen \<and>
                 nat (int n mod datlen) < length dat)) \<and>
   (datlen \<noteq> 0 \<and> \<bar>datlen\<bar> \<le> int (length dat) \<longrightarrow>
      (\<exists>r'. alt_arc4_addrandom dat datlen r = Inr r') \<and>
      (\<forall>n r0. \<exists>r1. addrandom_step dat datlen n r0 = Inr r1 \<and>
                 rs_j r1 = rs_j r0 + rs_s r0 (rs_i r0 + 1) + dat ! nat (int n mod \<bar>datlen\<bar>) \<and>
                 0 \<le> int n mod \<bar>datlen\<bar> \<and> int n mod \<bar>datlen\<bar> < \<bar>datlen\<bar> \<and>
                 nat (int n mod \<bar>datlen\<bar>) < length dat)) \<and>
   alt_arc4_addrandom dat 0 r = Inl DIV_BY_ZERO \<and>
   (can_open e st \<longrightarrow> alt_arc4random_addrandom e dat 0 st = Inl DIV_BY_ZERO) \<and>
   ((alt_arc4_addrandom dat datlen r = Inl DIV_BY_ZERO) = (datlen = 0)) \<and>
   (\<bar>datlen\<bar> \<le> int (length dat) \<longrightarrow>
      ((\<exists>r'. alt_arc4_addrandom dat datlen r = Inr r') = (datlen \<noteq> 0)))"
proof (intro conjI impI)
  assume a: "1 \<le> datlen \<and> datlen \<le> int (length dat)"
  then show "\<exists>r'. alt_arc4_addrandom dat datlen r = Inr r'"
    by (simp add: alt_arc4_addrandom_ok)
  from a show "\<forall>n r0. \<exists>r1. addrandom_step dat datlen n r0 = Inr r1 \<and>
                 rs_j r1 = rs_j r0 + rs_s r0 (rs_i r0 + 1) + dat ! nat (int n mod datlen) \<and>
                 0 \<le> int n mod datlen \<and> int n mod datlen < datlen \<and>
                 nat (int n mod datlen) < length dat"
    using addrandom_step_index[of datlen dat] by blast
next
  assume a: "datlen \<noteq> 0 \<and> \<bar>datlen\<bar> \<le> int (length dat)"
  then show "\<exists>r'. alt_arc4_addrandom dat datlen r = Inr r'"
    by (simp add: alt_arc4_addrandom_ok_abs)
  from a show "\<forall>n r0. \<exists>r1. addrandom_step dat datlen n r0 = Inr r1 \<and>
                 rs_j r1 = rs_j r0 + rs_s r0 (rs_i r0 + 1) + dat ! nat (int n mod \<bar>datlen\<bar>) \<and>
                 0 \<le> int n mod \<bar>datlen\<bar> \<and> int n mod \<bar>datlen\<bar> < \<bar>datlen\<bar> \<and>
                 nat (int n mod \<bar>datlen\<bar>) < length dat"
    using addrandom_step_index_abs[of datlen dat] by blast
next
  show "alt_arc4_addrandom dat 0 r = Inl DIV_BY_ZERO" by (simp add: alt_arc4_addrandom_div0)
next
  assume "can_open e st"
  then show "alt_arc4random_addrandom e dat 0 st = Inl DIV_BY_ZERO" by (rule public_addrandom_div0)
next
  show "(alt_arc4_addrandom dat datlen r = Inl DIV_BY_ZERO) = (datlen = 0)"
    by (rule alt_arc4_addrandom_div0)
next
  assume a: "\<bar>datlen\<bar> \<le> int (length dat)"
  show "(\<exists>r'. alt_arc4_addrandom dat datlen r = Inr r') = (datlen \<noteq> 0)"
  proof
    assume "\<exists>r'. alt_arc4_addrandom dat datlen r = Inr r'"
    then have "alt_arc4_addrandom dat datlen r \<noteq> Inl DIV_BY_ZERO" by auto
    then show "datlen \<noteq> 0" by (simp add: alt_arc4_addrandom_div0)
  next
    assume "datlen \<noteq> 0"
    with a show "\<exists>r'. alt_arc4_addrandom dat datlen r = Inr r'"
      by (simp add: alt_arc4_addrandom_ok_abs)
  qed
qed

theorem addrandom_precondition_witness:
  "(1 :: int) \<le> 3 \<and> (3 :: int) \<le> int (length [1, 2, 3 :: uint8_t]) \<and>
   (\<exists>r'. alt_arc4_addrandom [1, 2, 3] 3 primed = Inr r') \<and>
   (\<exists>r1. addrandom_step [1, 2, 3] 3 5 primed = Inr r1 \<and> rs_j r1 = 4) \<and>
   (- 3 :: int) \<noteq> 0 \<and> \<bar>- 3 :: int\<bar> \<le> int (length [1, 2, 3 :: uint8_t]) \<and>
   (\<exists>r'. alt_arc4_addrandom [1, 2, 3] (- 3) primed = Inr r') \<and>
   (\<exists>r1. addrandom_step [1, 2, 3] (- 3) 5 primed = Inr r1 \<and> rs_j r1 = 4) \<and>
   can_open mock_env ready_state \<and>
   alt_arc4random_addrandom mock_env [1, 2, 3] 0 ready_state = Inl DIV_BY_ZERO"
proof -
  note th = addrandom_precondition[of 3 "[1, 2, 3]" primed mock_env ready_state]
  note tn = addrandom_precondition[of "- 3" "[1, 2, 3]" primed mock_env ready_state]
  have h: "(1 :: int) \<le> 3 \<and> (3 :: int) \<le> int (length [1, 2, 3 :: uint8_t])" by simp
  have hn: "(- 3 :: int) \<noteq> 0 \<and> \<bar>- 3 :: int\<bar> \<le> int (length [1, 2, 3 :: uint8_t])" by simp
  from th h have a: "\<exists>r'. alt_arc4_addrandom [1, 2, 3] 3 primed = Inr r'" by blast
  from th h obtain r1 where "addrandom_step [1, 2, 3] 3 5 primed = Inr r1"
    "rs_j r1 = rs_j primed + rs_s primed (rs_i primed + 1) + [1, 2, 3] ! nat (int 5 mod 3)"
    by blast
  then have b: "\<exists>r1. addrandom_step [1, 2, 3] 3 5 primed = Inr r1 \<and> rs_j r1 = 4"
    by (simp add: primed_def)
  from tn[THEN conjunct2, THEN conjunct1, THEN mp, OF hn]
  have an: "\<exists>r'. alt_arc4_addrandom [1, 2, 3] (- 3) primed = Inr r'" by blast
  from tn[THEN conjunct2, THEN conjunct1, THEN mp, OF hn] obtain r2 where
    "addrandom_step [1, 2, 3] (- 3) 5 primed = Inr r2"
    "rs_j r2 = rs_j primed + rs_s primed (rs_i primed + 1) + [1, 2, 3] ! nat (int 5 mod \<bar>- 3\<bar>)"
    by blast
  then have bn: "\<exists>r1. addrandom_step [1, 2, 3] (- 3) 5 primed = Inr r1 \<and> rs_j r1 = 4"
    by (simp add: primed_def)
  from th mock_can_open[of ready_state]
  have c: "alt_arc4random_addrandom mock_env [1, 2, 3] 0 ready_state = Inl DIV_BY_ZERO" by blast
  from h hn a b an bn c mock_can_open[of ready_state] show ?thesis by (intro conjI) simp_all
qed

end
